theory Spec2Isabelle
  imports Main "HOL-Library.Sublist"
begin

section \<open>The social media post generator: data model\<close>

text \<open>
  The program (\<^verbatim>\<open>Socialmedia.py\<close>) turns a text into a tweet and a LinkedIn post by a
  generate and critique loop that is declared as a graph of stages. This theory embeds the
  data model, the five stages, the routing function and the run of the graph, and proves
  the properties of the orchestration.

  Strings are \<^typ>\<open>string\<close>; the integer \<^verbatim>\<open>n_drafts\<close> is an unbounded \<^typ>\<open>int\<close>, as
  in Python. \<^verbatim>\<open>AppState\<close> is a dictionary whose key \<^verbatim>\<open>edit_text\<close> is missing until the
  editor has written it: the field is an option, and reading it while it is missing is the
  \<^verbatim>\<open>KeyError\<close> of Python.
\<close>

record Post =
  drafts :: "string list"
  feedback :: "string option"

record AppState =
  user_text :: string
  target_audience :: string
  edit_text :: "string option"
  tweet :: Post
  linkedin_post :: Post
  n_drafts :: int

text \<open>
  Everything that can be raised inside a stage: the failure of the text generation service
  (with its message), \<^verbatim>\<open>drafts[-1]\<close> on an empty list, and a read of a missing key.
\<close>

datatype error = GenerationFailure string | IndexError | KeyError

text \<open>
  The language model is an external service. One call \<^verbatim>\<open>llm.invoke([SystemMessage(p),
  HumanMessage(q)])\<close> either returns a response, of which the stages read \<^verbatim>\<open>.content\<close>, or
  raises.
\<close>

datatype llm_result = Response string | Failure string

type_synonym llm = "string \<Rightarrow> string \<Rightarrow> llm_result"

subsection \<open>Python primitives used by the stages\<close>

text \<open>\<^verbatim>\<open>xs[-1]\<close>: the last element, \<^verbatim>\<open>IndexError\<close> on the empty list.\<close>

definition py_last :: "'a list \<Rightarrow> error + 'a" where
  "py_last xs = (if xs = [] then Inl IndexError else Inr (last xs))"

text \<open>
  The truth value of an \<^verbatim>\<open>Optional[str]\<close>: \<^verbatim>\<open>None\<close> and the empty string are both
  false.
\<close>

definition truthy :: "string option \<Rightarrow> bool" where
  "truthy v = (case v of None \<Rightarrow> False | Some t \<Rightarrow> t \<noteq> [])"

text \<open>
  \<^verbatim>\<open>str.strip()\<close> removes the white space at both ends. Characters are 8-bit here, and
  the white space is that of ASCII: tab, line feed, vertical tab, form feed, carriage
  return, the four separators \<^verbatim>\<open>0x1c\<close> to \<^verbatim>\<open>0x1f\<close>, and the blank.
\<close>

definition py_isspace :: "char \<Rightarrow> bool" where
  "py_isspace c =
     (let k = (of_char c :: nat) in (9 \<le> k \<and> k \<le> 13) \<or> (28 \<le> k \<and> k \<le> 32))"

definition py_strip :: "string \<Rightarrow> string" where
  "py_strip t = rev (dropWhile py_isspace (rev (dropWhile py_isspace t)))"

subsection \<open>The system prompts\<close>

definition EDITOR_PROMPT :: string where
  "EDITOR_PROMPT =
     ''\<newline>'' @
     ''Rewrite for maximum social media engagement:\<newline>'' @
     ''\<newline>'' @
     ''- Use attention-grabbing, concise language\<newline>'' @
     ''- Inject personality and humor\<newline>'' @
     ''- Optimize formatting (short paragraphs)\<newline>'' @
     ''- Encourage interaction (questions, calls-to-action)\<newline>'' @
     ''- Ensure perfect grammar and spelling\<newline>'' @
     ''- Rewrite from first person perspective, when talking to an audience\<newline>'' @
     ''\<newline>'' @
     ''Use only the information provided in the text. Think carefully.\<newline>''"

definition TWITTER_PROMPT :: string where
  "TWITTER_PROMPT =
     ''\<newline>'' @
     ''Generate a high-engagement tweet from the given text (atleast 300 words):\<newline>'' @
     ''1. What problem does this solve?\<newline>'' @
     ''2. Focus on the main technical points/features\<newline>'' @
     ''3. Write a short, coherent paragraph (2-3 sentences max)\<newline>'' @
     ''4. Use natural, conversational language\<newline>'' @
     ''5. Optimize for virality: make it intriguing, relatable, or controversial\<newline>'' @
     ''6. Exclude emojis and hashtags\<newline>''"

definition TWITTER_CRITIQUE_PROMPT :: string where
  "TWITTER_CRITIQUE_PROMPT =
     ''\<newline>'' @
     ''You are a Tweet Critique Agent. Your task is to analyze tweets and provide actionable feedback to make them more engaging. Focus on:\<newline>'' @
     ''\<newline>'' @
     ''1. Clarity: Is the message clear and easy to understand?\<newline>'' @
     ''2. Hook: Does it grab attention in the first few words?\<newline>'' @
     ''3. Brevity: Is it concise while maintaining impact?\<newline>'' @
     ''4. Call-to-action: Does it encourage interaction or sharing?\<newline>'' @
     ''5. Tone: Is it appropriate for the intended audience?\<newline>'' @
     ''6. Storytelling: Does it evoke curiosity?\<newline>'' @
     ''7. Remove hype: Does it promise more than it delivers?\<newline>'' @
     ''\<newline>'' @
     ''Provide 2-3 specific suggestions to improve the tweet's engagement potential.\<newline>'' @
     ''Do not suggest hashtags. Keep your feedback concise and actionable.\<newline>''"

definition LINKEDIN_PROMPT :: string where
  "LINKEDIN_PROMPT =
     ''\<newline>'' @
     ''Write a compelling LinkedIn post from the given text (atleast 300 words). Structure it as follows:\<newline>'' @
     ''\<newline>'' @
     ''1. Eye-catching headline (5-7 words)\<newline>'' @
     ''2. Identify a key problem or challenge\<newline>'' @
     ''3. Provide a bullet list of key benefits/features\<newline>'' @
     ''4. Highlight a clear benefit or solution\<newline>'' @
     ''5. Conclude with a thought-provoking question\<newline>'' @
     ''\<newline>'' @
     ''Maintain a professional, informative tone. Avoid emojis and hashtags.\<newline>'' @
     ''Keep the post concise (50-80 words) and relevant to the industry.\<newline>''"

definition LINKEDIN_CRITIQUE_PROMPT :: string where
  "LINKEDIN_CRITIQUE_PROMPT =
     ''\<newline>'' @
     ''Your role is to analyze LinkedIn posts and provide actionable feedback to make them more engaging.\<newline>'' @
     ''Focus on the following aspects:\<newline>'' @
     ''\<newline>'' @
     ''1. Hook: Evaluate the opening line's ability to grab attention.\<newline>'' @
     ''2. Structure: Assess the post's flow and readability.\<newline>'' @
     ''3. Content value: Determine if the post provides useful information or insights.\<newline>'' @
     ''4. Call-to-action: Check if there's a clear next step for readers.\<newline>'' @
     ''5. Language: Suggest improvements in tone, style, and word choice.\<newline>'' @
     ''6. Visual elements: Recommend additions or changes to images, videos, or formatting.\<newline>'' @
     ''\<newline>'' @
     ''For each aspect, provide:\<newline>'' @
     ''- A brief assessment (1-2 sentences)\<newline>'' @
     ''- A specific suggestion for improvement\<newline>'' @
     ''- A concise example of the suggested change\<newline>''"

section \<open>The stages\<close>

text \<open>
  A stage receives the state and the language model and returns a partial update of the
  state, which the graph merges into the state. \<^verbatim>\<open>Whole\<close> is the update of the
  \<^verbatim>\<open>supervisor\<close> stage, \<^verbatim>\<open>lambda x: x\<close>, which hands back every key as it found it.
\<close>

datatype update =
    Edit_text string
  | Tweet Post
  | Linkedin_post Post
  | Whole AppState

definition editor_node :: "AppState \<Rightarrow> llm \<Rightarrow> error + update" where
  "editor_node state llm =
     (let prompt = py_strip
            (''\<newline>text:\<newline>```\<newline>'' @ user_text state @ ''\<newline>```\<newline>'')
      in case llm EDITOR_PROMPT prompt of
           Failure m \<Rightarrow> Inl (GenerationFailure m)
         | Response content \<Rightarrow> Inr (Edit_text content))"

text \<open>
  The two writers. The expression \<^verbatim>\<open>feedback_prompt\<close> is evaluated first; it reads
  \<^verbatim>\<open>post.drafts[-1]\<close> only in the branch where \<^verbatim>\<open>post.feedback\<close> is true. Then the prompt
  reads \<^verbatim>\<open>state["edit_text"]\<close>.
\<close>

definition tweet_feedback_prompt :: "Post \<Rightarrow> error + string" where
  "tweet_feedback_prompt post =
     (if \<not> truthy (feedback post) then Inr ''''
      else case py_last (drafts post) of
             Inl e \<Rightarrow> Inl e
           | Inr d \<Rightarrow> Inr (py_strip
               (''\<newline>Tweet:\<newline>```\<newline>'' @ d @ ''\<newline>```\<newline>'' @
                ''\<newline>Use the feedback to improve it:\<newline>```\<newline>'' @
                the (feedback post) @ ''\<newline>```\<newline>'')))"

definition linkedin_feedback_prompt :: "Post \<Rightarrow> error + string" where
  "linkedin_feedback_prompt post =
     (if \<not> truthy (feedback post) then Inr ''''
      else case py_last (drafts post) of
             Inl e \<Rightarrow> Inl e
           | Inr d \<Rightarrow> Inr (py_strip
               (''\<newline>LinkedIn post:\<newline>```\<newline>'' @ d @ ''\<newline>```\<newline>'' @
                ''\<newline>Use the feedback to improve it:\<newline>```\<newline>'' @
                the (feedback post) @ ''\<newline>```\<newline>'')))"

text \<open>The user instruction of both writers, given the feedback part.\<close>

definition writer_prompt :: "AppState \<Rightarrow> string \<Rightarrow> error + string" where
  "writer_prompt state feedback_prompt =
     (case edit_text state of
        None \<Rightarrow> Inl KeyError
      | Some et \<Rightarrow> Inr (py_strip
          (''\<newline>text:\<newline>```\<newline>'' @ et @ ''\<newline>```\<newline>'' @
           ''\<newline>'' @ feedback_prompt @ ''\<newline>'' @
           ''\<newline>Target audience: '' @ target_audience state @ ''\<newline>'' @
           ''\<newline>Write only the text for the post\<newline>'')))"

definition tweet_writer_node :: "AppState \<Rightarrow> llm \<Rightarrow> error + update" where
  "tweet_writer_node state llm =
     (let post = tweet state in
      case tweet_feedback_prompt post of
        Inl e \<Rightarrow> Inl e
      | Inr feedback_prompt \<Rightarrow>
          (case writer_prompt state feedback_prompt of
             Inl e \<Rightarrow> Inl e
           | Inr prompt \<Rightarrow>
               (case llm TWITTER_PROMPT prompt of
                  Failure m \<Rightarrow> Inl (GenerationFailure m)
                | Response content \<Rightarrow>
                    Inr (Tweet (post\<lparr>drafts := drafts post @ [content]\<rparr>)))))"

definition linkedin_writer_node :: "AppState \<Rightarrow> llm \<Rightarrow> error + update" where
  "linkedin_writer_node state llm =
     (let post = linkedin_post state in
      case linkedin_feedback_prompt post of
        Inl e \<Rightarrow> Inl e
      | Inr feedback_prompt \<Rightarrow>
          (case writer_prompt state feedback_prompt of
             Inl e \<Rightarrow> Inl e
           | Inr prompt \<Rightarrow>
               (case llm LINKEDIN_PROMPT prompt of
                  Failure m \<Rightarrow> Inl (GenerationFailure m)
                | Response content \<Rightarrow>
                    Inr (Linkedin_post (post\<lparr>drafts := drafts post @ [content]\<rparr>)))))"

text \<open>
  The two critiques. The prompt reads \<^verbatim>\<open>state["edit_text"]\<close>, then \<^verbatim>\<open>post.drafts[-1]\<close>
  with no guard, then the audience.
\<close>

definition critique_tweet_prompt :: "AppState \<Rightarrow> error + string" where
  "critique_tweet_prompt state =
     (case edit_text state of
        None \<Rightarrow> Inl KeyError
      | Some et \<Rightarrow>
          (case py_last (drafts (tweet state)) of
             Inl e \<Rightarrow> Inl e
           | Inr d \<Rightarrow> Inr (py_strip
               (''\<newline>Full post:\<newline>```\<newline>'' @ et @ ''\<newline>```\<newline>'' @
                ''\<newline>Suggested tweet (critique this):\<newline>```\<newline>'' @ d @
                ''\<newline>```\<newline>'' @
                ''\<newline>Target audience: '' @ target_audience state @ ''\<newline>''))))"

definition critique_linkedin_prompt :: "AppState \<Rightarrow> error + string" where
  "critique_linkedin_prompt state =
     (case edit_text state of
        None \<Rightarrow> Inl KeyError
      | Some et \<Rightarrow>
          (case py_last (drafts (linkedin_post state)) of
             Inl e \<Rightarrow> Inl e
           | Inr d \<Rightarrow> Inr (py_strip
               (''\<newline>Full post:\<newline>```\<newline>'' @ et @ ''\<newline>```\<newline>'' @
                ''\<newline>Suggested LinkedIn post (critique this):\<newline>```\<newline>'' @ d @
                ''\<newline>```\<newline>'' @
                ''\<newline>Target audience: '' @ target_audience state @ ''\<newline>''))))"

definition critique_tweet_node :: "AppState \<Rightarrow> llm \<Rightarrow> error + update" where
  "critique_tweet_node state llm =
     (let post = tweet state in
      case critique_tweet_prompt state of
        Inl e \<Rightarrow> Inl e
      | Inr prompt \<Rightarrow>
          (case llm TWITTER_CRITIQUE_PROMPT prompt of
             Failure m \<Rightarrow> Inl (GenerationFailure m)
           | Response content \<Rightarrow> Inr (Tweet (post\<lparr>feedback := Some content\<rparr>))))"

definition critique_linkedin_node :: "AppState \<Rightarrow> llm \<Rightarrow> error + update" where
  "critique_linkedin_node state llm =
     (let post = linkedin_post state in
      case critique_linkedin_prompt state of
        Inl e \<Rightarrow> Inl e
      | Inr prompt \<Rightarrow>
          (case llm LINKEDIN_CRITIQUE_PROMPT prompt of
             Failure m \<Rightarrow> Inl (GenerationFailure m)
           | Response content \<Rightarrow> Inr (Linkedin_post (post\<lparr>feedback := Some content\<rparr>))))"

section \<open>The graph\<close>

text \<open>
  \<^verbatim>\<open>build_graph\<close> registers six stages under their names, the edges between them, the
  routing function \<^verbatim>\<open>should_rewrite\<close> on the way out of the supervisor, and the entry point.
\<close>

datatype node =
    Editor
  | Tweet_writer
  | Tweet_critique
  | Linkedin_writer
  | Linkedin_critique
  | Supervisor

text \<open>\<^verbatim>\<open>should_rewrite\<close> returns either the sentinel \<^verbatim>\<open>END\<close> or a list of stage names.\<close>

datatype route = END | Goto "node list"

definition should_rewrite :: "AppState \<Rightarrow> route" where
  "should_rewrite state =
     (let tweet = tweet state;
          linkedin_post = linkedin_post state;
          n_drafts = n_drafts state
      in if int (length (drafts tweet)) \<ge> n_drafts \<and>
            int (length (drafts linkedin_post)) \<ge> n_drafts
         then END
         else Goto [Linkedin_critique, Tweet_critique])"

fun node_fn :: "node \<Rightarrow> AppState \<Rightarrow> llm \<Rightarrow> error + update" where
  "node_fn Editor x llm = editor_node x llm"
| "node_fn Tweet_writer x llm = tweet_writer_node x llm"
| "node_fn Tweet_critique x llm = critique_tweet_node x llm"
| "node_fn Linkedin_writer x llm = linkedin_writer_node x llm"
| "node_fn Linkedin_critique x llm = critique_linkedin_node x llm"
| "node_fn Supervisor x llm = Inr (Whole x)"

definition edges :: "(node \<times> node) list" where
  "edges =
     [(Editor, Tweet_writer),
      (Editor, Linkedin_writer),
      (Tweet_writer, Supervisor),
      (Linkedin_writer, Supervisor),
      (Tweet_critique, Tweet_writer),
      (Linkedin_critique, Linkedin_writer)]"

definition entry_point :: node where
  "entry_point = Editor"

section \<open>Running the graph\<close>

text \<open>
  The graph library is not part of the repository. Its discipline, as far as this graph
  uses it, is: the run proceeds in supersteps; a superstep executes the stages that are
  active, each stage's update is merged into the state, and the stages active in the next
  superstep are the targets of the edges that leave the stages just executed (through
  \<^verbatim>\<open>should_rewrite\<close> for the supervisor), each at most once. The run ends when no stage is
  active, and an exception raised in a stage ends it at once. The stages of one superstep
  are executed here one after the other, in the order in which they were activated; the
  two platforms share no data, so the order shows only in the numbering of the calls to
  the service. The library's bound on the number of supersteps of one run is not modelled.

  The service may answer the same prompts differently from one call to the next: it is a
  family of answer functions, indexed by the number of calls made before.

  Beside the state, a run carries two ghost fields: the number of calls to the service so
  far, and the trace of the stages completed so far, each with the state it left.
\<close>

type_synonym service = "nat \<Rightarrow> llm"

record run =
  store :: AppState
  calls :: nat
  trace :: "(node \<times> AppState) list"

fun apply_update :: "AppState \<Rightarrow> update \<Rightarrow> AppState" where
  "apply_update s (Edit_text t) = s\<lparr>edit_text := Some t\<rparr>"
| "apply_update s (Tweet p) = s\<lparr>tweet := p\<rparr>"
| "apply_update s (Linkedin_post p) = s\<lparr>linkedin_post := p\<rparr>"
| "apply_update s (Whole x) = x"

definition record_node :: "node \<Rightarrow> update \<Rightarrow> run \<Rightarrow> run" where
  "record_node n u r =
     (let s = apply_update (store r) u
      in \<lparr>store = s,
          calls = (if n = Supervisor then calls r else Suc (calls r)),
          trace = trace r @ [(n, s)]\<rparr>)"

text \<open>
  One superstep. The result is the stage that raised with its error, if any, and the run
  as it stood at that moment.
\<close>

fun superstep :: "service \<Rightarrow> node list \<Rightarrow> run \<Rightarrow> (node \<times> error) option \<times> run" where
  "superstep svc [] r = (None, r)"
| "superstep svc (n # ns) r =
     (case node_fn n (store r) (svc (calls r)) of
        Inl e \<Rightarrow> (Some (n, e), r)
      | Inr u \<Rightarrow> superstep svc ns (record_node n u r))"

definition targets :: "AppState \<Rightarrow> node \<Rightarrow> node list" where
  "targets s n =
     (if n = Supervisor
      then (case should_rewrite s of END \<Rightarrow> [] | Goto ns \<Rightarrow> ns)
      else map snd (filter (\<lambda>e. fst e = n) edges))"

definition next_nodes :: "AppState \<Rightarrow> node list \<Rightarrow> node list" where
  "next_nodes s active = remdups (concat (map (targets s) active))"

text \<open>
  The run of the graph from a list of active stages. It is a loop over supersteps; its
  termination is proved below, from a bound on the supersteps that remain.
\<close>

function exec :: "service \<Rightarrow> node list \<Rightarrow> run \<Rightarrow> (node \<times> error) option \<times> run" where
  "exec svc [] r = (None, r)"
| "exec svc (n # ns) r =
     (case superstep svc (n # ns) r of
        (Some f, r') \<Rightarrow> (Some f, r')
      | (None, r') \<Rightarrow> exec svc (next_nodes (store r') (n # ns)) r')"
  by pat_completeness auto

text \<open>
  \<^verbatim>\<open>app.invoke(input)\<close> starts at the entry point. \<^verbatim>\<open>main\<close> calls it on a state with two
  empty posts and no \<^verbatim>\<open>edit_text\<close>, inside \<^verbatim>\<open>try\<close>: it keeps the final state when the run
  ends, and only reports the exception otherwise. (It does so when the button is pressed
  with a key and a non-empty text; the number of drafts comes from a field bounded by 1
  and 5.)
\<close>

definition invoke :: "service \<Rightarrow> AppState \<Rightarrow> (node \<times> error) option \<times> run" where
  "invoke svc input = exec svc [entry_point] \<lparr>store = input, calls = 0, trace = []\<rparr>"

definition initial_state :: "string \<Rightarrow> string \<Rightarrow> int \<Rightarrow> AppState" where
  "initial_state text audience n =
     \<lparr>user_text = text,
      target_audience = audience,
      edit_text = None,
      tweet = \<lparr>drafts = [], feedback = None\<rparr>,
      linkedin_post = \<lparr>drafts = [], feedback = None\<rparr>,
      n_drafts = n\<rparr>"

definition main_generate :: "service \<Rightarrow> string \<Rightarrow> string \<Rightarrow> int \<Rightarrow> error + AppState" where
  "main_generate svc text audience n =
     (case invoke svc (initial_state text audience n) of
        (None, r) \<Rightarrow> Inr (store r)
      | (Some (stage, e), r) \<Rightarrow> Inl e)"

subsection \<open>A bound on the supersteps that remain\<close>

text \<open>
  \<open>deficit\<close> is the number of drafts that the platform with fewer drafts still lacks.
  \<open>life\<close> bounds the supersteps that a list of active stages can still cause: a supervisor
  is followed by both critiques, both writers and a supervisor that sees a smaller
  deficit; the other stages reach a supervisor in one or two supersteps.
\<close>

definition deficit :: "AppState \<Rightarrow> nat" where
  "deficit s =
     nat (n_drafts s -
          min (int (length (drafts (tweet s)))) (int (length (drafts (linkedin_post s)))))"

definition life_sv :: "nat \<Rightarrow> bool \<Rightarrow> nat" where
  "life_sv d sv = (if sv then 3 * d + 1 else 0)"

definition life_c :: "nat \<Rightarrow> bool \<Rightarrow> bool \<Rightarrow> nat" where
  "life_c d tc lc =
     (if tc \<and> lc then max 3 (3 * d) else if tc \<or> lc then 3 * d + 3 else 0)"

definition life_w :: "nat \<Rightarrow> bool \<Rightarrow> bool \<Rightarrow> nat" where
  "life_w d tw lw =
     (if tw \<and> lw then 3 * (d - 1) + 2 else if tw \<or> lw then 3 * d + 2 else 0)"

definition life_e :: "nat \<Rightarrow> bool \<Rightarrow> nat" where
  "life_e d e = (if e then 3 * (d - 1) + 3 else 0)"

definition lifeb ::
  "nat \<Rightarrow> bool \<Rightarrow> bool \<Rightarrow> bool \<Rightarrow> bool \<Rightarrow> bool \<Rightarrow> bool \<Rightarrow> nat" where
  "lifeb d e tw tc lw lc sv =
     max (life_sv d sv) (max (life_c d tc lc) (max (life_w d tw lw) (life_e d e)))"

definition life :: "AppState \<Rightarrow> node list \<Rightarrow> nat" where
  "life s active =
     lifeb (deficit s) (Editor \<in> set active) (Tweet_writer \<in> set active)
       (Tweet_critique \<in> set active) (Linkedin_writer \<in> set active)
       (Linkedin_critique \<in> set active) (Supervisor \<in> set active)"

section \<open>Services and states used as examples\<close>

text \<open>A service that returns its user instruction, one that always returns the same text,
  and one that raises at one call and answers all the others.\<close>

definition echo_llm :: llm where
  "echo_llm sys usr = Response usr"

definition always :: "string \<Rightarrow> service" where
  "always t k sys usr = Response t"

definition failing_at :: "nat \<Rightarrow> service" where
  "failing_at k j sys usr = (if j = k then Failure ''down'' else Response ''ok'')"

text \<open>A state in the middle of a run: one draft and one critique on each platform.\<close>

definition mid_state :: AppState where
  "mid_state =
     \<lparr>user_text = ''u'',
      target_audience = ''a'',
      edit_text = Some ''e'',
      tweet = \<lparr>drafts = [''d''], feedback = Some ''f''\<rparr>,
      linkedin_post = \<lparr>drafts = [''p''], feedback = Some ''g''\<rparr>,
      n_drafts = 2\<rparr>"

text \<open>The same state after a critique that came back empty for the tweet.\<close>

definition empty_feedback_state :: AppState where
  "empty_feedback_state = mid_state\<lparr>tweet := \<lparr>drafts = [''d''], feedback = Some ''''\<rparr>\<rparr>"

text \<open>A state where the tweet has reached the target and the LinkedIn post has not.\<close>

definition uneven_state :: AppState where
  "uneven_state = mid_state\<lparr>tweet := \<lparr>drafts = [''d'', ''d2''], feedback = Some ''f''\<rparr>\<rparr>"

section \<open>Notions used to state and prove the properties of a run\<close>

text \<open>
  The stages completed by a run, in order, and the points of a trace: after each completed
  stage, the stages completed so far together with the state that the stage left.
\<close>

definition nodes :: "run \<Rightarrow> node list" where
  "nodes r = map fst (trace r)"

definition points :: "(node \<times> AppState) list \<Rightarrow> (node list \<times> AppState) list" where
  "points tr = map (\<lambda>i. (map fst (take (Suc i) tr), snd (tr ! i))) [0..<length tr]"

text \<open>
  The stages that a run has started: those completed and, if the run was aborted, the one
  that raised.
\<close>

definition executed :: "(node \<times> error) option \<times> run \<Rightarrow> node list" where
  "executed res =
     nodes (snd res) @ (case fst res of None \<Rightarrow> [] | Some (n, e) \<Rightarrow> [n])"

text \<open>
  The feedback of a platform is the answer of the service to the critique prompt of the
  present state (which a critique does not change, since it only writes the feedback).
\<close>

definition critiqued_tweet :: "service \<Rightarrow> AppState \<Rightarrow> bool" where
  "critiqued_tweet svc s \<longleftrightarrow>
     (\<exists>k p c. critique_tweet_prompt s = Inr p \<and>
        svc k TWITTER_CRITIQUE_PROMPT p = Response c \<and> feedback (tweet s) = Some c)"

definition critiqued_linkedin :: "service \<Rightarrow> AppState \<Rightarrow> bool" where
  "critiqued_linkedin svc s \<longleftrightarrow>
     (\<exists>k p c. critique_linkedin_prompt s = Inr p \<and>
        svc k LINKEDIN_CRITIQUE_PROMPT p = Response c \<and> feedback (linkedin_post s) = Some c)"

text \<open>
  What holds of the state at a point of a run that starts with empty posts, in terms of
  the stages completed so far.
\<close>

definition point_ok :: "service \<Rightarrow> node list \<Rightarrow> AppState \<Rightarrow> bool" where
  "point_ok svc pre s \<longleftrightarrow>
     length (drafts (tweet s)) = count_list pre Tweet_writer \<and>
     length (drafts (linkedin_post s)) = count_list pre Linkedin_writer \<and>
     (feedback (tweet s) = None \<longleftrightarrow> count_list pre Tweet_critique = 0) \<and>
     (feedback (linkedin_post s) = None \<longleftrightarrow> count_list pre Linkedin_critique = 0) \<and>
     count_list pre Tweet_critique \<le> count_list pre Tweet_writer \<and>
     count_list pre Linkedin_critique \<le> count_list pre Linkedin_writer \<and>
     (pre \<noteq> [] \<longrightarrow> edit_text s \<noteq> None \<and> count_list pre Editor = 1 \<and> hd pre = Editor) \<and>
     (pre \<noteq> [] \<and> last pre = Tweet_critique \<longrightarrow>
        count_list pre Tweet_critique = count_list pre Tweet_writer \<and> critiqued_tweet svc s) \<and>
     (pre \<noteq> [] \<and> last pre = Linkedin_critique \<longrightarrow>
        count_list pre Linkedin_critique = count_list pre Linkedin_writer \<and>
        critiqued_linkedin svc s) \<and>
     (pre \<noteq> [] \<and> last pre = Supervisor \<longrightarrow>
        count_list pre Tweet_writer = count_list pre Supervisor \<and>
        count_list pre Linkedin_writer = count_list pre Supervisor)"

definition consistent :: "service \<Rightarrow> run \<Rightarrow> bool" where
  "consistent svc r \<longleftrightarrow>
     point_ok svc (nodes r) (store r) \<and>
     (\<forall>p \<in> set (points (trace r)). point_ok svc (fst p) (snd p)) \<and>
     calls r = length (filter (\<lambda>n. n \<noteq> Supervisor) (nodes r)) \<and>
     (\<forall>j < calls r. \<exists>sys usr c. svc j sys usr = Response c)"

text \<open>When a stage may be started, given the stages completed before it.\<close>

fun pre_ok :: "node \<Rightarrow> node list \<Rightarrow> bool" where
  "pre_ok Editor pre \<longleftrightarrow> pre = []"
| "pre_ok Tweet_writer pre \<longleftrightarrow> pre \<noteq> []"
| "pre_ok Linkedin_writer pre \<longleftrightarrow> pre \<noteq> []"
| "pre_ok Tweet_critique pre \<longleftrightarrow>
     pre \<noteq> [] \<and> count_list pre Tweet_writer = count_list pre Tweet_critique + 1"
| "pre_ok Linkedin_critique pre \<longleftrightarrow>
     pre \<noteq> [] \<and> count_list pre Linkedin_writer = count_list pre Linkedin_critique + 1"
| "pre_ok Supervisor pre \<longleftrightarrow>
     pre \<noteq> [] \<and> count_list pre Tweet_writer = count_list pre Supervisor + 1 \<and>
     count_list pre Linkedin_writer = count_list pre Supervisor + 1"

fun seq_ok :: "node list \<Rightarrow> node list \<Rightarrow> bool" where
  "seq_ok [] pre \<longleftrightarrow> True"
| "seq_ok (n # ns) pre \<longleftrightarrow> pre_ok n pre \<and> seq_ok ns (pre @ [n])"

text \<open>
  The lists of active stages that a run from the entry point goes through, each with what
  holds of the stages completed before: the editor; the two writers (in either order);
  the supervisor; the two critiques; and the end.
\<close>

definition phase :: "int \<Rightarrow> node list \<Rightarrow> node list \<Rightarrow> bool" where
  "phase n active pre \<longleftrightarrow>
     (let k = count_list pre Supervisor;
          tw = count_list pre Tweet_writer; lw = count_list pre Linkedin_writer;
          tc = count_list pre Tweet_critique; lc = count_list pre Linkedin_critique
      in (active = [Editor] \<and> pre = []) \<or>
         ((active = [Tweet_writer, Linkedin_writer] \<or> active = [Linkedin_writer, Tweet_writer]) \<and>
            pre \<noteq> [] \<and> tw = k \<and> lw = k \<and> tc = k \<and> lc = k \<and> (k = 0 \<or> int k < n)) \<or>
         (active = [Supervisor] \<and>
            pre \<noteq> [] \<and> tw = k + 1 \<and> lw = k + 1 \<and> tc = k \<and> lc = k \<and> (k = 0 \<or> int k < n)) \<or>
         (active = [Linkedin_critique, Tweet_critique] \<and>
            pre \<noteq> [] \<and> tw = k \<and> lw = k \<and> tc + 1 = k \<and> lc + 1 = k \<and> int k < n) \<or>
         (active = [] \<and>
            tw = k \<and> lw = k \<and> tc + 1 = k \<and> lc + 1 = k \<and> n \<le> int k \<and>
            (k = 1 \<or> int k \<le> n)))"

text \<open>
  What holds of a run once the editor has returned: the editor is the first stage of the
  trace and occurs nowhere else in it, and the edited text is the same in every state of
  the trace and in the present state.
\<close>

definition after_editor :: "string option \<Rightarrow> run \<Rightarrow> bool" where
  "after_editor e1 r \<longleftrightarrow>
     (\<exists>s1 rest. trace r = (Editor, s1) # rest \<and> Editor \<notin> fst ` set rest) \<and>
     (\<forall>x \<in> set (trace r). edit_text (snd x) = e1) \<and>
     edit_text (store r) = e1"

section \<open>Termination of the run\<close>

lemma node_fn_Inr:
  assumes "node_fn n s llm = Inr u"
  shows "(n = Editor \<longrightarrow> (\<exists>c. u = Edit_text c)) \<and>
         (n = Tweet_writer \<longrightarrow> (\<exists>c. u = Tweet ((tweet s)\<lparr>drafts := drafts (tweet s) @ [c]\<rparr>))) \<and>
         (n = Tweet_critique \<longrightarrow> (\<exists>c. u = Tweet ((tweet s)\<lparr>feedback := Some c\<rparr>))) \<and>
         (n = Linkedin_writer \<longrightarrow>
            (\<exists>c. u = Linkedin_post
                   ((linkedin_post s)\<lparr>drafts := drafts (linkedin_post s) @ [c]\<rparr>))) \<and>
         (n = Linkedin_critique \<longrightarrow>
            (\<exists>c. u = Linkedin_post ((linkedin_post s)\<lparr>feedback := Some c\<rparr>))) \<and>
         (n = Supervisor \<longrightarrow> u = Whole s)"
  using assms
  by (cases n)
     (auto simp: editor_node_def tweet_writer_node_def linkedin_writer_node_def
        critique_tweet_node_def critique_linkedin_node_def Let_def
        split: sum.splits llm_result.splits)

lemma record_node_lengths:
  assumes "node_fn n (store r) llm = Inr u"
  shows "n_drafts (store (record_node n u r)) = n_drafts (store r) \<and>
         length (drafts (tweet (store (record_node n u r)))) =
           (if n = Tweet_writer then Suc (length (drafts (tweet (store r))))
            else length (drafts (tweet (store r)))) \<and>
         length (drafts (linkedin_post (store (record_node n u r)))) =
           (if n = Linkedin_writer then Suc (length (drafts (linkedin_post (store r))))
            else length (drafts (linkedin_post (store r))))"
  using node_fn_Inr[OF assms]
  by (cases n) (auto simp: record_node_def Let_def)

lemma superstep_lengths:
  "superstep svc A r = (None, r') \<Longrightarrow>
     n_drafts (store r') = n_drafts (store r) \<and>
     length (drafts (tweet (store r))) \<le> length (drafts (tweet (store r'))) \<and>
     length (drafts (linkedin_post (store r))) \<le> length (drafts (linkedin_post (store r'))) \<and>
     (Tweet_writer \<in> set A \<longrightarrow>
        length (drafts (tweet (store r))) < length (drafts (tweet (store r')))) \<and>
     (Linkedin_writer \<in> set A \<longrightarrow>
        length (drafts (linkedin_post (store r))) < length (drafts (linkedin_post (store r'))))"
proof (induction A arbitrary: r)
  case Nil
  then show ?case by simp
next
  case (Cons n ns)
  from Cons.prems obtain u where u: "node_fn n (store r) (svc (calls r)) = Inr u"
    and rest: "superstep svc ns (record_node n u r) = (None, r')"
    by (auto split: sum.splits)
  from Cons.IH[OF rest] record_node_lengths[OF u] show ?case
    by (cases "n = Tweet_writer"; cases "n = Linkedin_writer"; simp; linarith?)
qed

lemma mem_next_nodes:
  "x \<in> set (next_nodes s A) \<longleftrightarrow>
     (x = Tweet_writer \<and> (Editor \<in> set A \<or> Tweet_critique \<in> set A)) \<or>
     (x = Linkedin_writer \<and> (Editor \<in> set A \<or> Linkedin_critique \<in> set A)) \<or>
     (x = Supervisor \<and> (Tweet_writer \<in> set A \<or> Linkedin_writer \<in> set A)) \<or>
     ((x = Tweet_critique \<or> x = Linkedin_critique) \<and>
        Supervisor \<in> set A \<and> should_rewrite s \<noteq> END)"
  by (cases x; cases "should_rewrite s")
     (auto simp: next_nodes_def targets_def edges_def should_rewrite_def Let_def
        split: if_splits)

lemma should_rewrite_deficit: "should_rewrite s = END \<longleftrightarrow> deficit s = 0"
  by (auto simp: should_rewrite_def deficit_def Let_def)

lemma nonempty_has_node:
  "A \<noteq> [] \<Longrightarrow>
     Editor \<in> set A \<or> Tweet_writer \<in> set A \<or> Tweet_critique \<in> set A \<or>
     Linkedin_writer \<in> set A \<or> Linkedin_critique \<in> set A \<or> Supervisor \<in> set A"
proof (cases A)
  case Nil
  assume "A \<noteq> []"
  with Nil show ?thesis by simp
next
  case (Cons a as)
  then show ?thesis by (cases a) auto
qed

lemma lifeb_ge:
  "life_sv d sv \<le> lifeb d e tw tc lw lc sv"
  "life_c d tc lc \<le> lifeb d e tw tc lw lc sv"
  "life_w d tw lw \<le> lifeb d e tw tc lw lc sv"
  "life_e d e \<le> lifeb d e tw tc lw lc sv"
  unfolding lifeb_def by (rule max.coboundedI1 max.coboundedI2 order_refl)+

lemma lifeb_pos:
  assumes "e \<or> tw \<or> tc \<or> lw \<or> lc \<or> sv"
  shows "0 < lifeb d e tw tc lw lc sv"
proof -
  from assms consider e | "tw \<or> lw" | "tc \<or> lc" | sv by blast
  then show ?thesis
  proof cases
    case 1
    then have "0 < life_e d e" by (simp add: life_e_def)
    then show ?thesis using lifeb_ge(4) by (rule less_le_trans)
  next
    case 2
    then have "0 < life_w d tw lw" by (cases tw; cases lw; simp add: life_w_def)
    then show ?thesis using lifeb_ge(3) by (rule less_le_trans)
  next
    case 3
    then have "0 < life_c d tc lc" by (cases tc; cases lc; simp add: life_c_def)
    then show ?thesis using lifeb_ge(2) by (rule less_le_trans)
  next
    case 4
    then have "0 < life_sv d sv" by (simp add: life_sv_def)
    then show ?thesis using lifeb_ge(1) by (rule less_le_trans)
  qed
qed

lemma sv_next:
  assumes "d' \<le> d" and "tw \<and> lw \<longrightarrow> d' \<le> d - 1"
  shows "life_sv d' (tw \<or> lw) < max 1 (life_w d tw lw)"
  using assms by (cases tw; cases lw; simp add: life_sv_def life_w_def)

lemma c_next:
  assumes "d' \<le> d" and "c \<longrightarrow> 0 < d'"
  shows "life_c d' (sv \<and> c) (sv \<and> c) < max 1 (life_sv d sv)"
  using assms by (cases sv; cases c; simp add: life_sv_def life_c_def)

lemma w_next:
  assumes "d' \<le> d"
  shows "life_w d' (e \<or> tc) (e \<or> lc) < max 1 (max (life_c d tc lc) (life_e d e))"
  using assms by (cases e; cases tc; cases lc; simp add: life_w_def life_c_def life_e_def)

lemma lifeb_decreases:
  assumes ne: "e \<or> tw \<or> tc \<or> lw \<or> lc \<or> sv"
    and le: "d' \<le> d"
    and both: "tw \<and> lw \<longrightarrow> d' \<le> d - 1"
    and gate: "c \<longrightarrow> 0 < d'"
  shows "lifeb d' False (e \<or> tc) (sv \<and> c) (e \<or> lc) (sv \<and> c) (tw \<or> lw)
           < lifeb d e tw tc lw lc sv"
proof -
  let ?L = "lifeb d e tw tc lw lc sv"
  have one: "1 \<le> ?L" using lifeb_pos[OF ne, of d] by linarith
  have "max 1 (life_w d tw lw) \<le> ?L"
    by (rule max.boundedI[OF one lifeb_ge(3)])
  with sv_next[OF le both] have 1: "life_sv d' (tw \<or> lw) < ?L"
    by (rule less_le_trans)
  have "max 1 (life_sv d sv) \<le> ?L"
    by (rule max.boundedI[OF one lifeb_ge(1)])
  with c_next[OF le gate] have 2: "life_c d' (sv \<and> c) (sv \<and> c) < ?L"
    by (rule less_le_trans)
  have "max 1 (max (life_c d tc lc) (life_e d e)) \<le> ?L"
    by (rule max.boundedI[OF one max.boundedI[OF lifeb_ge(2) lifeb_ge(4)]])
  with w_next[OF le] have 3: "life_w d' (e \<or> tc) (e \<or> lc) < ?L"
    by (rule less_le_trans)
  have 4: "life_e d' False < ?L"
    using one by (simp add: life_e_def)
  show ?thesis
    unfolding lifeb_def[of d']
    by (simp only: max_less_iff_conj 1 2 3 4)
qed

lemma deficit_arith_le:
  "a \<le> a' \<Longrightarrow> b \<le> b' \<Longrightarrow>
     nat (n - min (int a') (int b')) \<le> nat (n - min (int a) (int b))"
  by arith

lemma deficit_arith_less:
  "a < a' \<Longrightarrow> b < b' \<Longrightarrow>
     nat (n - min (int a') (int b')) \<le> nat (n - min (int a) (int b)) - 1"
  by arith

lemma life_decreases:
  assumes "superstep svc (n # ns) r = (None, r')"
  shows "life (store r') (next_nodes (store r') (n # ns)) < life (store r) (n # ns)"
proof -
  let ?A = "n # ns"
  let ?s = "store r" and ?s' = "store r'"
  note L = superstep_lengths[OF assms]
  have n: "n_drafts ?s' = n_drafts ?s"
    and t: "length (drafts (tweet ?s)) \<le> length (drafts (tweet ?s'))"
    and l: "length (drafts (linkedin_post ?s)) \<le> length (drafts (linkedin_post ?s'))"
    using L by simp_all
  have le: "deficit ?s' \<le> deficit ?s"
    using deficit_arith_le[OF t l, of "n_drafts ?s"] n
    by (simp add: deficit_def)
  have both: "Tweet_writer \<in> set ?A \<and> Linkedin_writer \<in> set ?A \<longrightarrow>
      deficit ?s' \<le> deficit ?s - 1"
  proof
    assume "Tweet_writer \<in> set ?A \<and> Linkedin_writer \<in> set ?A"
    with L have "length (drafts (tweet ?s)) < length (drafts (tweet ?s'))"
      and "length (drafts (linkedin_post ?s)) < length (drafts (linkedin_post ?s'))"
      by blast+
    from deficit_arith_less[OF this, of "n_drafts ?s"] n
    show "deficit ?s' \<le> deficit ?s - 1"
      by (simp add: deficit_def)
  qed
  have gate: "should_rewrite ?s' \<noteq> END \<longrightarrow> 0 < deficit ?s'"
    by (simp add: should_rewrite_deficit)
  have ne: "Editor \<in> set ?A \<or> Tweet_writer \<in> set ?A \<or> Tweet_critique \<in> set ?A \<or>
        Linkedin_writer \<in> set ?A \<or> Linkedin_critique \<in> set ?A \<or> Supervisor \<in> set ?A"
    by (rule nonempty_has_node) simp
  have "life ?s' (next_nodes ?s' ?A) =
          lifeb (deficit ?s') False
            (Editor \<in> set ?A \<or> Tweet_critique \<in> set ?A)
            (Supervisor \<in> set ?A \<and> should_rewrite ?s' \<noteq> END)
            (Editor \<in> set ?A \<or> Linkedin_critique \<in> set ?A)
            (Supervisor \<in> set ?A \<and> should_rewrite ?s' \<noteq> END)
            (Tweet_writer \<in> set ?A \<or> Linkedin_writer \<in> set ?A)"
    unfolding life_def by (simp only: mem_next_nodes) simp
  also have "\<dots> < lifeb (deficit ?s) (Editor \<in> set ?A) (Tweet_writer \<in> set ?A)
      (Tweet_critique \<in> set ?A) (Linkedin_writer \<in> set ?A) (Linkedin_critique \<in> set ?A)
      (Supervisor \<in> set ?A)"
    by (rule lifeb_decreases[OF ne le both gate])
  also have "\<dots> = life ?s ?A"
    by (simp only: life_def)
  finally show ?thesis .
qed

termination exec
  by (relation "measure (\<lambda>(svc, A, r). life (store r) A)") (auto simp: life_decreases)

section \<open>The prompts, with the stripping resolved\<close>

lemma py_isspace_newline [simp]: "py_isspace CHR ''\<newline>''"
  by (simp add: py_isspace_def)

lemma py_strip_frame:
  assumes "\<not> py_isspace a" and "\<not> py_isspace b"
  shows "py_strip (CHR ''\<newline>'' # a # X @ b # Y) = a # X @ b # rev (dropWhile py_isspace (rev Y))"
  using assms by (simp add: py_strip_def dropWhile_append3)

lemma not_space_t: "\<not> py_isspace CHR ''t''"
  by (simp add: py_isspace_def)
lemma not_space_T: "\<not> py_isspace CHR ''T''"
  by (simp add: py_isspace_def)
lemma not_space_L: "\<not> py_isspace CHR ''L''"
  by (simp add: py_isspace_def)
lemma not_space_F: "\<not> py_isspace CHR ''F''"
  by (simp add: py_isspace_def)
lemma not_space_tick: "\<not> py_isspace CHR 0x60"
  by (simp add: py_isspace_def)
lemma not_space_colon: "\<not> py_isspace CHR '':''"
  by (simp add: py_isspace_def)

lemma writer_prompt_eq:
  "writer_prompt s fbp =
     (case edit_text s of
        None \<Rightarrow> Inl KeyError
      | Some et \<Rightarrow> Inr
          (''text:\<newline>```\<newline>'' @ et @ ''\<newline>```\<newline>\<newline>'' @ fbp @
           ''\<newline>\<newline>Target audience: '' @ target_audience s @
           ''\<newline>\<newline>Write only the text for the post''))"
proof (cases "edit_text s")
  case None
  then show ?thesis by (simp add: writer_prompt_def)
next
  case (Some et)
  have "py_strip (CHR ''\<newline>'' # CHR ''t'' #
          (''ext:\<newline>```\<newline>'' @ et @ ''\<newline>```\<newline>\<newline>'' @ fbp @
           ''\<newline>\<newline>Target audience: '' @ target_audience s @
           ''\<newline>\<newline>Write only the text for the pos'') @ CHR ''t'' # ''\<newline>'')
        = CHR ''t'' # (''ext:\<newline>```\<newline>'' @ et @ ''\<newline>```\<newline>\<newline>'' @ fbp @
           ''\<newline>\<newline>Target audience: '' @ target_audience s @
           ''\<newline>\<newline>Write only the text for the pos'') @ CHR ''t'' # rev (dropWhile py_isspace (rev ''\<newline>''))"
    by (rule py_strip_frame[OF not_space_t not_space_t])
  then show ?thesis using Some by (simp add: writer_prompt_def)
qed

lemma tweet_feedback_prompt_eq:
  "tweet_feedback_prompt post =
     (if \<not> truthy (feedback post) then Inr ''''
      else if drafts post = [] then Inl IndexError
      else Inr (''Tweet:\<newline>```\<newline>'' @ last (drafts post) @
                ''\<newline>```\<newline>\<newline>Use the feedback to improve it:\<newline>```\<newline>'' @
                the (feedback post) @ ''\<newline>```''))"
proof -
  have "py_strip (CHR ''\<newline>'' # CHR ''T'' #
          (''weet:\<newline>```\<newline>'' @ d @
           ''\<newline>```\<newline>\<newline>Use the feedback to improve it:\<newline>```\<newline>'' @
           fb @ ''\<newline>``'') @ CHR 0x60 # ''\<newline>'')
        = CHR ''T'' # (''weet:\<newline>```\<newline>'' @ d @
           ''\<newline>```\<newline>\<newline>Use the feedback to improve it:\<newline>```\<newline>'' @
           fb @ ''\<newline>``'') @ CHR 0x60 # rev (dropWhile py_isspace (rev ''\<newline>''))" for d fb
    by (rule py_strip_frame[OF not_space_T not_space_tick])
  then show ?thesis
    by (simp add: tweet_feedback_prompt_def py_last_def)
qed

lemma linkedin_feedback_prompt_eq:
  "linkedin_feedback_prompt post =
     (if \<not> truthy (feedback post) then Inr ''''
      else if drafts post = [] then Inl IndexError
      else Inr (''LinkedIn post:\<newline>```\<newline>'' @ last (drafts post) @
                ''\<newline>```\<newline>\<newline>Use the feedback to improve it:\<newline>```\<newline>'' @
                the (feedback post) @ ''\<newline>```''))"
proof -
  have "py_strip (CHR ''\<newline>'' # CHR ''L'' #
          (''inkedIn post:\<newline>```\<newline>'' @ d @
           ''\<newline>```\<newline>\<newline>Use the feedback to improve it:\<newline>```\<newline>'' @
           fb @ ''\<newline>``'') @ CHR 0x60 # ''\<newline>'')
        = CHR ''L'' # (''inkedIn post:\<newline>```\<newline>'' @ d @
           ''\<newline>```\<newline>\<newline>Use the feedback to improve it:\<newline>```\<newline>'' @
           fb @ ''\<newline>``'') @ CHR 0x60 # rev (dropWhile py_isspace (rev ''\<newline>''))" for d fb
    by (rule py_strip_frame[OF not_space_L not_space_tick])
  then show ?thesis
    by (simp add: linkedin_feedback_prompt_def py_last_def)
qed

section \<open>Invariants of a run\<close>

lemma superstep_invariant:
  assumes "I r"
    and "\<And>n r u. I r \<Longrightarrow> node_fn n (store r) (svc (calls r)) = Inr u \<Longrightarrow> I (record_node n u r)"
  shows "I (snd (superstep svc A r))"
  using assms(1)
proof (induction A arbitrary: r)
  case Nil
  then show ?case by simp
next
  case (Cons n ns)
  show ?case
  proof (cases "node_fn n (store r) (svc (calls r))")
    case (Inl e)
    with Cons.prems show ?thesis by simp
  next
    case (Inr u)
    from assms(2)[OF Cons.prems Inr] have "I (record_node n u r)" .
    from Cons.IH[OF this] Inr show ?thesis by simp
  qed
qed

lemma exec_invariant:
  assumes "I r"
    and "\<And>n r u. I r \<Longrightarrow> node_fn n (store r) (svc (calls r)) = Inr u \<Longrightarrow> I (record_node n u r)"
  shows "I (snd (exec svc A r))"
  using assms
proof (induction svc A r rule: exec.induct)
  case (1 svc r)
  then show ?case by simp
next
  case (2 svc n ns r)
  obtain f r' where sup: "superstep svc (n # ns) r = (f, r')"
    by (cases "superstep svc (n # ns) r")
  have "I (snd (superstep svc (n # ns) r))"
    by (rule superstep_invariant[of I, OF "2.prems"])
  with sup have I': "I r'" by simp
  show ?case
  proof (cases f)
    case None
    from "2.IH"[OF sup[symmetric] None I' "2.prems"(2)] sup None show ?thesis by simp
  next
    case (Some a)
    with sup I' show ?thesis by simp
  qed
qed

section \<open>The convergence gate\<close>

text \<open>
  Claim C1. \<^verbatim>\<open>should_rewrite\<close> returns \<^verbatim>\<open>END\<close> exactly when both platforms have at least
  \<^verbatim>\<open>n_drafts\<close> drafts; in every other case it names both critiques, also when one
  platform alone has reached the target. It is what decides the stages that follow the
  supervisor, and the supervisor is what follows the two writers.
\<close>

theorem should_rewrite_joint:
  "(should_rewrite s = END \<longleftrightarrow>
      n_drafts s \<le> int (length (drafts (tweet s))) \<and>
      n_drafts s \<le> int (length (drafts (linkedin_post s)))) \<and>
   (\<not> (n_drafts s \<le> int (length (drafts (tweet s))) \<and>
       n_drafts s \<le> int (length (drafts (linkedin_post s)))) \<longrightarrow>
      should_rewrite s = Goto [Linkedin_critique, Tweet_critique] \<and>
      next_nodes s [Supervisor] = [Linkedin_critique, Tweet_critique]) \<and>
   (should_rewrite s = END \<longrightarrow> next_nodes s [Supervisor] = []) \<and>
   next_nodes s [Tweet_writer, Linkedin_writer] = [Supervisor] \<and>
   next_nodes s [Linkedin_writer, Tweet_writer] = [Supervisor]"
  by (auto simp: should_rewrite_def next_nodes_def targets_def edges_def Let_def)

theorem should_rewrite_joint_witness:
  "n_drafts uneven_state \<le> int (length (drafts (tweet uneven_state))) \<and>
   \<not> n_drafts uneven_state \<le> int (length (drafts (linkedin_post uneven_state))) \<and>
   should_rewrite uneven_state = Goto [Linkedin_critique, Tweet_critique] \<and>
   next_nodes uneven_state [Supervisor] = [Linkedin_critique, Tweet_critique] \<and>
   should_rewrite (mid_state\<lparr>n_drafts := 1\<rparr>) = END \<and>
   next_nodes (mid_state\<lparr>n_drafts := 1\<rparr>) [Supervisor] = []"
  using should_rewrite_joint[of uneven_state] should_rewrite_joint[of "mid_state\<lparr>n_drafts := 1\<rparr>"]
  by (simp add: uneven_state_def mid_state_def)

section \<open>The writers\<close>

lemma tweet_writer_node_eq:
  "tweet_writer_node s llm =
     (if truthy (feedback (tweet s)) \<and> drafts (tweet s) = [] then Inl IndexError
      else case edit_text s of
        None \<Rightarrow> Inl KeyError
      | Some et \<Rightarrow>
          (case llm TWITTER_PROMPT
                  (''text:\<newline>```\<newline>'' @ et @ ''\<newline>```\<newline>\<newline>'' @
                   (if truthy (feedback (tweet s))
                    then ''Tweet:\<newline>```\<newline>'' @ last (drafts (tweet s)) @
                         ''\<newline>```\<newline>\<newline>Use the feedback to improve it:\<newline>```\<newline>'' @
                         the (feedback (tweet s)) @ ''\<newline>```''
                    else '''') @
                   ''\<newline>\<newline>Target audience: '' @ target_audience s @
                   ''\<newline>\<newline>Write only the text for the post'') of
             Failure m \<Rightarrow> Inl (GenerationFailure m)
           | Response content \<Rightarrow>
               Inr (Tweet \<lparr>drafts = drafts (tweet s) @ [content],
                           feedback = feedback (tweet s)\<rparr>)))"
proof -
  have post_eq: "p\<lparr>drafts := drafts p @ [c]\<rparr> = \<lparr>drafts = drafts p @ [c], feedback = feedback p\<rparr>"
    for p :: Post and c
    by (cases p) simp
  show ?thesis
  proof (cases "truthy (feedback (tweet s)) \<and> drafts (tweet s) = []")
    case True
    then show ?thesis
      by (simp add: tweet_writer_node_def Let_def tweet_feedback_prompt_eq)
  next
    case False
    note nf = False
    show ?thesis
    proof (cases "edit_text s")
      case None
      with nf show ?thesis
        by (auto simp: tweet_writer_node_def Let_def tweet_feedback_prompt_eq writer_prompt_eq)
    next
      case (Some et)
      show ?thesis
      proof (cases "truthy (feedback (tweet s))")
        case True
        with nf Some show ?thesis
          by (simp add: tweet_writer_node_def Let_def tweet_feedback_prompt_eq writer_prompt_eq post_eq
                split: llm_result.splits)
      next
        case False
        with Some show ?thesis
          by (simp add: tweet_writer_node_def Let_def tweet_feedback_prompt_eq writer_prompt_eq post_eq
                split: llm_result.splits)
      qed
    qed
  qed
qed

lemma linkedin_writer_node_eq:
  "linkedin_writer_node s llm =
     (if truthy (feedback (linkedin_post s)) \<and> drafts (linkedin_post s) = []
      then Inl IndexError
      else case edit_text s of
        None \<Rightarrow> Inl KeyError
      | Some et \<Rightarrow>
          (case llm LINKEDIN_PROMPT
                  (''text:\<newline>```\<newline>'' @ et @ ''\<newline>```\<newline>\<newline>'' @
                   (if truthy (feedback (linkedin_post s))
                    then ''LinkedIn post:\<newline>```\<newline>'' @ last (drafts (linkedin_post s)) @
                         ''\<newline>```\<newline>\<newline>Use the feedback to improve it:\<newline>```\<newline>'' @
                         the (feedback (linkedin_post s)) @ ''\<newline>```''
                    else '''') @
                   ''\<newline>\<newline>Target audience: '' @ target_audience s @
                   ''\<newline>\<newline>Write only the text for the post'') of
             Failure m \<Rightarrow> Inl (GenerationFailure m)
           | Response content \<Rightarrow>
               Inr (Linkedin_post \<lparr>drafts = drafts (linkedin_post s) @ [content],
                                   feedback = feedback (linkedin_post s)\<rparr>)))"
proof -
  have post_eq: "p\<lparr>drafts := drafts p @ [c]\<rparr> = \<lparr>drafts = drafts p @ [c], feedback = feedback p\<rparr>"
    for p :: Post and c
    by (cases p) simp
  show ?thesis
  proof (cases "truthy (feedback (linkedin_post s)) \<and> drafts (linkedin_post s) = []")
    case True
    then show ?thesis
      by (simp add: linkedin_writer_node_def Let_def linkedin_feedback_prompt_eq)
  next
    case False
    note nf = False
    show ?thesis
    proof (cases "edit_text s")
      case None
      with nf show ?thesis
        by (auto simp: linkedin_writer_node_def Let_def linkedin_feedback_prompt_eq writer_prompt_eq)
    next
      case (Some et)
      show ?thesis
      proof (cases "truthy (feedback (linkedin_post s))")
        case True
        with nf Some show ?thesis
          by (simp add: linkedin_writer_node_def Let_def linkedin_feedback_prompt_eq writer_prompt_eq post_eq
                split: llm_result.splits)
      next
        case False
        with Some show ?thesis
          by (simp add: linkedin_writer_node_def Let_def linkedin_feedback_prompt_eq writer_prompt_eq post_eq
                split: llm_result.splits)
      qed
    qed
  qed
qed

text \<open>
  Claim C5, as the code has it. A writer builds its user instruction from the edited text
  and the target audience; it puts the latest draft and the feedback, framed as a
  revision, between them exactly when the feedback is true in the sense of Python, that
  is present and not the empty string; and it appends the one text that the service
  returns at the end of the draft list, leaving the feedback as it is. (It raises when the
  feedback is true and there is no draft, and when the edited text is missing.)
\<close>

theorem writer_instruction:
  "tweet_writer_node s llm =
     (if truthy (feedback (tweet s)) \<and> drafts (tweet s) = [] then Inl IndexError
      else case edit_text s of
        None \<Rightarrow> Inl KeyError
      | Some et \<Rightarrow>
          (case llm TWITTER_PROMPT
                  (''text:\<newline>```\<newline>'' @ et @ ''\<newline>```\<newline>\<newline>'' @
                   (if truthy (feedback (tweet s))
                    then ''Tweet:\<newline>```\<newline>'' @ last (drafts (tweet s)) @
                         ''\<newline>```\<newline>\<newline>Use the feedback to improve it:\<newline>```\<newline>'' @
                         the (feedback (tweet s)) @ ''\<newline>```''
                    else '''') @
                   ''\<newline>\<newline>Target audience: '' @ target_audience s @
                   ''\<newline>\<newline>Write only the text for the post'') of
             Failure m \<Rightarrow> Inl (GenerationFailure m)
           | Response content \<Rightarrow>
               Inr (Tweet \<lparr>drafts = drafts (tweet s) @ [content],
                           feedback = feedback (tweet s)\<rparr>))) \<and>
   linkedin_writer_node s llm =
     (if truthy (feedback (linkedin_post s)) \<and> drafts (linkedin_post s) = []
      then Inl IndexError
      else case edit_text s of
        None \<Rightarrow> Inl KeyError
      | Some et \<Rightarrow>
          (case llm LINKEDIN_PROMPT
                  (''text:\<newline>```\<newline>'' @ et @ ''\<newline>```\<newline>\<newline>'' @
                   (if truthy (feedback (linkedin_post s))
                    then ''LinkedIn post:\<newline>```\<newline>'' @ last (drafts (linkedin_post s)) @
                         ''\<newline>```\<newline>\<newline>Use the feedback to improve it:\<newline>```\<newline>'' @
                         the (feedback (linkedin_post s)) @ ''\<newline>```''
                    else '''') @
                   ''\<newline>\<newline>Target audience: '' @ target_audience s @
                   ''\<newline>\<newline>Write only the text for the post'') of
             Failure m \<Rightarrow> Inl (GenerationFailure m)
           | Response content \<Rightarrow>
               Inr (Linkedin_post \<lparr>drafts = drafts (linkedin_post s) @ [content],
                                   feedback = feedback (linkedin_post s)\<rparr>)))"
  using tweet_writer_node_eq[of s llm] linkedin_writer_node_eq[of s llm]
  by (rule conjI)

theorem writer_instruction_witness:
  "tweet_writer_node mid_state echo_llm =
     Inr (Tweet \<lparr>drafts = [''d'',
             ''text:\<newline>```\<newline>e\<newline>```\<newline>\<newline>Tweet:\<newline>```\<newline>d\<newline>```\<newline>\<newline>Use the feedback to improve it:\<newline>```\<newline>f\<newline>```\<newline>\<newline>Target audience: a\<newline>\<newline>Write only the text for the post''],
           feedback = Some ''f''\<rparr>)"
  using writer_instruction[of mid_state echo_llm]
  by (simp add: mid_state_def echo_llm_def truthy_def)

text \<open>
  The claim as worded fails on a feedback that is present and empty: the instruction then
  has neither the draft nor the feedback.
\<close>

theorem writer_empty_feedback_counterexample:
  "feedback (tweet empty_feedback_state) \<noteq> None \<and>
   tweet_writer_node empty_feedback_state echo_llm =
     Inr (Tweet \<lparr>drafts = [''d'',
             ''text:\<newline>```\<newline>e\<newline>```\<newline>\<newline>\<newline>\<newline>Target audience: a\<newline>\<newline>Write only the text for the post''],
           feedback = Some ''''\<rparr>)"
  by (simp add: tweet_writer_node_def Let_def tweet_feedback_prompt_eq writer_prompt_eq
        empty_feedback_state_def mid_state_def echo_llm_def truthy_def)

section \<open>What a stage may change\<close>

lemma record_node_sel:
  "store (record_node n u r) = apply_update (store r) u"
  "trace (record_node n u r) = trace r @ [(n, apply_update (store r) u)]"
  "calls (record_node n u r) = (if n = Supervisor then calls r else Suc (calls r))"
  by (simp_all add: record_node_def Let_def)

lemma sorted_wrt_snoc_last:
  assumes "sorted_wrt R xs" and "xs \<noteq> []" and "R (last xs) y"
    and "\<And>a b c. R a b \<Longrightarrow> R b c \<Longrightarrow> R a c"
  shows "sorted_wrt R (xs @ [y])"
proof -
  have "R x y" if "x \<in> set xs" for x
  proof (cases "x = last xs")
    case True
    with assms(3) show ?thesis by simp
  next
    case False
    from that obtain i where i: "i < length xs" "xs ! i = x"
      by (auto simp: in_set_conv_nth)
    with False assms(2) have "i < length xs - 1"
      by (cases "i = length xs - 1") (auto simp: last_conv_nth)
    with assms(1) i have "R x (xs ! (length xs - 1))"
      by (auto simp: sorted_wrt_iff_nth_less)
    with assms(2) have "R x (last xs)" by (simp add: last_conv_nth)
    with assms(3,4) show ?thesis by blast
  qed
  with assms(1) show ?thesis by (simp add: sorted_wrt_append)
qed

text \<open>
  Claim C9. A stage that returns changes only its own slice of the state: the editor only
  \<^verbatim>\<open>edit_text\<close>, the two Twitter stages only \<^verbatim>\<open>tweet\<close>, the two LinkedIn stages only
  \<^verbatim>\<open>linkedin_post\<close>, the supervisor nothing; \<^verbatim>\<open>user_text\<close>, \<^verbatim>\<open>target_audience\<close> and
  \<^verbatim>\<open>n_drafts\<close> are changed by no stage, so that they have their initial values in every
  state of every run. A stage that raises changes nothing.
\<close>

theorem stage_frame:
  "(node_fn n s llm = Inr u \<longrightarrow>
      user_text (apply_update s u) = user_text s \<and>
      target_audience (apply_update s u) = target_audience s \<and>
      n_drafts (apply_update s u) = n_drafts s \<and>
      (n \<noteq> Editor \<longrightarrow> edit_text (apply_update s u) = edit_text s) \<and>
      (n \<noteq> Tweet_writer \<and> n \<noteq> Tweet_critique \<longrightarrow> tweet (apply_update s u) = tweet s) \<and>
      (n \<noteq> Linkedin_writer \<and> n \<noteq> Linkedin_critique \<longrightarrow>
         linkedin_post (apply_update s u) = linkedin_post s)) \<and>
   (node_fn n (store r) (svc (calls r)) = Inl e \<longrightarrow>
      superstep svc (n # ns) r = (Some (n, e), r)) \<and>
   (\<forall>x \<in> set (store (snd (invoke svc inp)) # map snd (trace (snd (invoke svc inp)))).
      user_text x = user_text inp \<and> target_audience x = target_audience inp \<and>
      n_drafts x = n_drafts inp)"
proof -
  have node: "user_text (apply_update s u) = user_text s \<and>
      target_audience (apply_update s u) = target_audience s \<and>
      n_drafts (apply_update s u) = n_drafts s \<and>
      (n \<noteq> Editor \<longrightarrow> edit_text (apply_update s u) = edit_text s) \<and>
      (n \<noteq> Tweet_writer \<and> n \<noteq> Tweet_critique \<longrightarrow> tweet (apply_update s u) = tweet s) \<and>
      (n \<noteq> Linkedin_writer \<and> n \<noteq> Linkedin_critique \<longrightarrow>
         linkedin_post (apply_update s u) = linkedin_post s)"
    if "node_fn n s llm = Inr u" for n s llm u
    using node_fn_Inr[OF that] by (cases n) auto
  let ?I = "\<lambda>r::run. \<forall>x \<in> set (store r # map snd (trace r)).
      user_text x = user_text inp \<and> target_audience x = target_audience inp \<and>
      n_drafts x = n_drafts inp"
  have "?I (snd (exec svc [entry_point] \<lparr>store = inp, calls = 0, trace = []\<rparr>))"
  proof (rule exec_invariant)
    show "?I \<lparr>store = inp, calls = 0, trace = []\<rparr>" by simp
  next
    fix n r u
    assume I: "?I r" and ok: "node_fn n (store r) (svc (calls r)) = Inr u"
    from node[OF ok] have new: "user_text (apply_update (store r) u) = user_text (store r)"
      "target_audience (apply_update (store r) u) = target_audience (store r)"
      "n_drafts (apply_update (store r) u) = n_drafts (store r)"
      by blast+
    from I have old: "user_text (store r) = user_text inp"
      "target_audience (store r) = target_audience inp" "n_drafts (store r) = n_drafts inp"
      by simp_all
    from I have "\<forall>x \<in> set (map snd (trace r)).
      user_text x = user_text inp \<and> target_audience x = target_audience inp \<and>
      n_drafts x = n_drafts inp"
      by simp
    then show "?I (record_node n u r)"
      by (simp add: record_node_sel new old)
  qed
  then have run: "?I (snd (invoke svc inp))" by (simp only: invoke_def)
  have raise: "node_fn n (store r) (svc (calls r)) = Inl e \<longrightarrow>
      superstep svc (n # ns) r = (Some (n, e), r)"
    by simp
  from node[of n s llm u] have "node_fn n s llm = Inr u \<longrightarrow>
      user_text (apply_update s u) = user_text s \<and>
      target_audience (apply_update s u) = target_audience s \<and>
      n_drafts (apply_update s u) = n_drafts s \<and>
      (n \<noteq> Editor \<longrightarrow> edit_text (apply_update s u) = edit_text s) \<and>
      (n \<noteq> Tweet_writer \<and> n \<noteq> Tweet_critique \<longrightarrow> tweet (apply_update s u) = tweet s) \<and>
      (n \<noteq> Linkedin_writer \<and> n \<noteq> Linkedin_critique \<longrightarrow>
         linkedin_post (apply_update s u) = linkedin_post s)"
    by (rule impI)
  with raise run show ?thesis
    by (intro conjI)
qed

theorem stage_frame_witness:
  "node_fn Tweet_critique mid_state (always ''x'' 0) =
     Inr (Tweet \<lparr>drafts = [''d''], feedback = Some ''x''\<rparr>) \<and>
   linkedin_post (apply_update mid_state (Tweet \<lparr>drafts = [''d''], feedback = Some ''x''\<rparr>)) =
     linkedin_post mid_state \<and>
   edit_text (apply_update mid_state (Tweet \<lparr>drafts = [''d''], feedback = Some ''x''\<rparr>)) =
     edit_text mid_state \<and>
   n_drafts (apply_update mid_state (Tweet \<lparr>drafts = [''d''], feedback = Some ''x''\<rparr>)) = 2 \<and>
   n_drafts (store (snd (invoke (always ''x'') mid_state))) = 2"
proof -
  have ok: "node_fn Tweet_critique mid_state (always ''x'' 0) =
     Inr (Tweet \<lparr>drafts = [''d''], feedback = Some ''x''\<rparr>)"
    by (simp add: critique_tweet_node_def critique_tweet_prompt_def py_last_def Let_def
          mid_state_def always_def)
  from stage_frame[of Tweet_critique mid_state "always ''x'' 0"
      "Tweet \<lparr>drafts = [''d''], feedback = Some ''x''\<rparr>" _ "always ''x''" _ _ mid_state] ok
  show ?thesis
    by (simp add: mid_state_def)
qed

section \<open>The draft lists only grow at the end\<close>

lemma node_drafts:
  assumes "node_fn n s llm = Inr u"
  shows "(if n = Tweet_writer
          then \<exists>c. drafts (tweet (apply_update s u)) = drafts (tweet s) @ [c]
          else drafts (tweet (apply_update s u)) = drafts (tweet s)) \<and>
         (if n = Linkedin_writer
          then \<exists>c. drafts (linkedin_post (apply_update s u)) = drafts (linkedin_post s) @ [c]
          else drafts (linkedin_post (apply_update s u)) = drafts (linkedin_post s))"
  using node_fn_Inr[OF assms] by (cases n) auto

lemma run_drafts_prefix:
  "sorted_wrt
     (\<lambda>a b. prefix (drafts (tweet a)) (drafts (tweet b)) \<and>
            prefix (drafts (linkedin_post a)) (drafts (linkedin_post b)))
     (inp # map snd (trace (snd (invoke svc inp))))"
proof -
  let ?R = "\<lambda>a b. prefix (drafts (tweet a)) (drafts (tweet b)) \<and>
            prefix (drafts (linkedin_post a)) (drafts (linkedin_post b))"
  have grows: "?R s (apply_update s u)" if "node_fn n s llm = Inr u" for n s llm u
  proof -
    from node_drafts[OF that] have "prefix (drafts (tweet s)) (drafts (tweet (apply_update s u)))"
      by (cases "n = Tweet_writer") auto
    moreover from node_drafts[OF that]
    have "prefix (drafts (linkedin_post s)) (drafts (linkedin_post (apply_update s u)))"
      by (cases "n = Linkedin_writer") auto
    ultimately show ?thesis by simp
  qed
  let ?I = "\<lambda>r::run. sorted_wrt ?R (inp # map snd (trace r)) \<and>
      store r = last (inp # map snd (trace r))"
  have "?I (snd (exec svc [entry_point] \<lparr>store = inp, calls = 0, trace = []\<rparr>))"
  proof (rule exec_invariant)
    show "?I \<lparr>store = inp, calls = 0, trace = []\<rparr>" by simp
  next
    fix n r u
    assume I: "?I r" and ok: "node_fn n (store r) (svc (calls r)) = Inr u"
    let ?xs = "inp # map snd (trace r)"
    from I have s: "sorted_wrt ?R ?xs" and l: "store r = last ?xs" by blast+
    from grows[OF ok] l have g: "?R (last ?xs) (apply_update (store r) u)" by simp
    have "sorted_wrt ?R (?xs @ [apply_update (store r) u])"
      by (rule sorted_wrt_snoc_last[where R = ?R, OF s _ g]) (auto intro: prefix_order.trans)
    then show "?I (record_node n u r)"
      by (simp add: record_node_sel)
  qed
  then show ?thesis
    unfolding invoke_def by (rule conjunct1)
qed

text \<open>
  Claim C7. A stage that returns leaves both draft lists as they are, except the writer of
  a platform, which puts one text at the end of that platform's list. So along every run,
  from the initial state on, the draft lists of an earlier state are prefixes of those of
  every later state: no draft is removed, edited or moved.
\<close>

theorem drafts_append_only:
  "(node_fn n s llm = Inr u \<longrightarrow>
      (if n = Tweet_writer
       then \<exists>c. drafts (tweet (apply_update s u)) = drafts (tweet s) @ [c]
       else drafts (tweet (apply_update s u)) = drafts (tweet s)) \<and>
      (if n = Linkedin_writer
       then \<exists>c. drafts (linkedin_post (apply_update s u)) = drafts (linkedin_post s) @ [c]
       else drafts (linkedin_post (apply_update s u)) = drafts (linkedin_post s))) \<and>
   sorted_wrt
     (\<lambda>a b. prefix (drafts (tweet a)) (drafts (tweet b)) \<and>
            prefix (drafts (linkedin_post a)) (drafts (linkedin_post b)))
     (inp # map snd (trace (snd (invoke svc inp))))"
proof -
  from node_drafts[of n s llm u] have "node_fn n s llm = Inr u \<longrightarrow>
      (if n = Tweet_writer
       then \<exists>c. drafts (tweet (apply_update s u)) = drafts (tweet s) @ [c]
       else drafts (tweet (apply_update s u)) = drafts (tweet s)) \<and>
      (if n = Linkedin_writer
       then \<exists>c. drafts (linkedin_post (apply_update s u)) = drafts (linkedin_post s) @ [c]
       else drafts (linkedin_post (apply_update s u)) = drafts (linkedin_post s))"
    by (rule impI)
  with run_drafts_prefix[of inp svc] show ?thesis
    by (intro conjI)
qed

theorem drafts_append_only_witness:
  "node_fn Tweet_writer mid_state (always ''x'' 0) =
     Inr (Tweet \<lparr>drafts = [''d'', ''x''], feedback = Some ''f''\<rparr>) \<and>
   (\<exists>c. drafts (tweet (apply_update mid_state
            (Tweet \<lparr>drafts = [''d'', ''x''], feedback = Some ''f''\<rparr>))) = [''d''] @ [c]) \<and>
   drafts (linkedin_post (apply_update mid_state
            (Tweet \<lparr>drafts = [''d'', ''x''], feedback = Some ''f''\<rparr>))) = [''p''] \<and>
   sorted_wrt
     (\<lambda>a b. prefix (drafts (tweet a)) (drafts (tweet b)) \<and>
            prefix (drafts (linkedin_post a)) (drafts (linkedin_post b)))
     (mid_state # map snd (trace (snd (invoke (always ''x'') mid_state))))"
proof -
  have ok: "node_fn Tweet_writer mid_state (always ''x'' 0) =
     Inr (Tweet \<lparr>drafts = [''d'', ''x''], feedback = Some ''f''\<rparr>)"
    by (simp add: tweet_writer_node_def tweet_feedback_prompt_eq writer_prompt_eq Let_def
          mid_state_def always_def truthy_def)
  from drafts_append_only[of Tweet_writer mid_state "always ''x'' 0"
      "Tweet \<lparr>drafts = [''d'', ''x''], feedback = Some ''f''\<rparr>" mid_state "always ''x''"] ok
  have "(\<exists>c. drafts (tweet (apply_update mid_state
            (Tweet \<lparr>drafts = [''d'', ''x''], feedback = Some ''f''\<rparr>))) = drafts (tweet mid_state) @ [c]) \<and>
     drafts (linkedin_post (apply_update mid_state
            (Tweet \<lparr>drafts = [''d'', ''x''], feedback = Some ''f''\<rparr>))) = drafts (linkedin_post mid_state)"
    and "sorted_wrt
     (\<lambda>a b. prefix (drafts (tweet a)) (drafts (tweet b)) \<and>
            prefix (drafts (linkedin_post a)) (drafts (linkedin_post b)))
     (mid_state # map snd (trace (snd (invoke (always ''x'') mid_state))))"
    by simp_all
  moreover have "drafts (tweet mid_state) = [''d'']" "drafts (linkedin_post mid_state) = [''p'']"
    by (simp_all add: mid_state_def)
  ultimately show ?thesis using ok by simp
qed

section \<open>The points of a run\<close>

lemma points_snoc:
  "points (tr @ [(n, s)]) = points tr @ [(map fst tr @ [n], s)]"
proof -
  have "map (\<lambda>i. (map fst (take (Suc i) (tr @ [(n, s)])), snd ((tr @ [(n, s)]) ! i))) [0..<length tr]
      = map (\<lambda>i. (map fst (take (Suc i) tr), snd (tr ! i))) [0..<length tr]"
    by (rule map_cong) (auto simp: nth_append)
  then show ?thesis
    by (simp add: points_def)
qed

lemma points_Nil: "points [] = []"
  by (simp add: points_def)

lemma nodes_record_node: "nodes (record_node n u r) = nodes r @ [n]"
  by (simp add: nodes_def record_node_sel)

section \<open>What a stage returns and what it raises\<close>

lemma node_fn_Inr_call:
  assumes "node_fn n s llm = Inr u"
  shows "(n = Editor \<longrightarrow> (\<exists>p c. llm EDITOR_PROMPT p = Response c \<and> u = Edit_text c)) \<and>
         (n = Tweet_writer \<longrightarrow>
            (\<exists>p c. llm TWITTER_PROMPT p = Response c \<and>
               u = Tweet ((tweet s)\<lparr>drafts := drafts (tweet s) @ [c]\<rparr>))) \<and>
         (n = Tweet_critique \<longrightarrow>
            (\<exists>p c. critique_tweet_prompt s = Inr p \<and>
               llm TWITTER_CRITIQUE_PROMPT p = Response c \<and>
               u = Tweet ((tweet s)\<lparr>feedback := Some c\<rparr>))) \<and>
         (n = Linkedin_writer \<longrightarrow>
            (\<exists>p c. llm LINKEDIN_PROMPT p = Response c \<and>
               u = Linkedin_post ((linkedin_post s)\<lparr>drafts := drafts (linkedin_post s) @ [c]\<rparr>))) \<and>
         (n = Linkedin_critique \<longrightarrow>
            (\<exists>p c. critique_linkedin_prompt s = Inr p \<and>
               llm LINKEDIN_CRITIQUE_PROMPT p = Response c \<and>
               u = Linkedin_post ((linkedin_post s)\<lparr>feedback := Some c\<rparr>))) \<and>
         (n = Supervisor \<longrightarrow> u = Whole s)"
proof (cases n)
  case Editor
  with assms show ?thesis
    by (auto simp: editor_node_def Let_def split: llm_result.splits)
next
  case Tweet_writer
  with assms show ?thesis
    by (auto simp: tweet_writer_node_def Let_def split: sum.splits llm_result.splits)
next
  case Tweet_critique
  with assms show ?thesis
    by (auto simp: critique_tweet_node_def Let_def split: sum.splits llm_result.splits)
next
  case Linkedin_writer
  with assms show ?thesis
    by (auto simp: linkedin_writer_node_def Let_def split: sum.splits llm_result.splits)
next
  case Linkedin_critique
  with assms show ?thesis
    by (auto simp: critique_linkedin_node_def Let_def split: sum.splits llm_result.splits)
next
  case Supervisor
  with assms show ?thesis by auto
qed

lemma writer_prompt_Inl: "writer_prompt s fbp = Inl e \<Longrightarrow> e = KeyError \<and> edit_text s = None"
  by (auto simp: writer_prompt_def split: option.splits)

lemma tweet_feedback_prompt_Inl:
  "tweet_feedback_prompt p = Inl e \<Longrightarrow> e = IndexError \<and> truthy (feedback p) \<and> drafts p = []"
  by (auto simp: tweet_feedback_prompt_def py_last_def split: if_splits)

lemma linkedin_feedback_prompt_Inl:
  "linkedin_feedback_prompt p = Inl e \<Longrightarrow> e = IndexError \<and> truthy (feedback p) \<and> drafts p = []"
  by (auto simp: linkedin_feedback_prompt_def py_last_def split: if_splits)

lemma critique_tweet_prompt_Inl:
  "critique_tweet_prompt s = Inl e \<Longrightarrow>
     (e = KeyError \<and> edit_text s = None) \<or> (e = IndexError \<and> drafts (tweet s) = [])"
  by (auto simp: critique_tweet_prompt_def py_last_def split: option.splits if_splits)

lemma critique_linkedin_prompt_Inl:
  "critique_linkedin_prompt s = Inl e \<Longrightarrow>
     (e = KeyError \<and> edit_text s = None) \<or> (e = IndexError \<and> drafts (linkedin_post s) = [])"
  by (auto simp: critique_linkedin_prompt_def py_last_def split: option.splits if_splits)

text \<open>A stage raises one of three things; each has its cause in the state or in the service.\<close>

lemma node_fn_Inl:
  assumes "node_fn n s llm = Inl e"
  shows "(\<exists>m sys usr. e = GenerationFailure m \<and> llm sys usr = Failure m) \<or>
         (e = KeyError \<and> edit_text s = None \<and> n \<noteq> Editor) \<or>
         (e = IndexError \<and>
            (n = Tweet_critique \<and> drafts (tweet s) = [] \<or>
             n = Linkedin_critique \<and> drafts (linkedin_post s) = [] \<or>
             n = Tweet_writer \<and> drafts (tweet s) = [] \<and> truthy (feedback (tweet s)) \<or>
             n = Linkedin_writer \<and> drafts (linkedin_post s) = [] \<and>
               truthy (feedback (linkedin_post s))))"
proof (cases n)
  case Editor
  with assms show ?thesis
    by (auto simp: editor_node_def Let_def split: llm_result.splits)
next
  case Tweet_writer
  with assms show ?thesis
    by (auto simp: tweet_writer_node_def Let_def split: sum.splits llm_result.splits
          dest: writer_prompt_Inl tweet_feedback_prompt_Inl)
next
  case Tweet_critique
  with assms show ?thesis
    by (auto simp: critique_tweet_node_def Let_def split: sum.splits llm_result.splits
          dest: critique_tweet_prompt_Inl)
next
  case Linkedin_writer
  with assms show ?thesis
    by (auto simp: linkedin_writer_node_def Let_def split: sum.splits llm_result.splits
          dest: writer_prompt_Inl linkedin_feedback_prompt_Inl)
next
  case Linkedin_critique
  with assms show ?thesis
    by (auto simp: critique_linkedin_node_def Let_def split: sum.splits llm_result.splits
          dest: critique_linkedin_prompt_Inl)
next
  case Supervisor
  with assms show ?thesis by simp
qed

section \<open>One stage of a run from the entry point\<close>

lemma truthy_Some: "truthy v \<Longrightarrow> v \<noteq> None"
  by (cases v) (auto simp: truthy_def)

lemma node_safe:
  assumes ok: "point_ok svc pre s" and pre: "pre_ok n pre"
    and raised: "node_fn n s llm = Inl e"
  shows "\<exists>m sys usr. e = GenerationFailure m \<and> llm sys usr = Failure m"
proof -
  from ok have t: "length (drafts (tweet s)) = count_list pre Tweet_writer"
    and l: "length (drafts (linkedin_post s)) = count_list pre Linkedin_writer"
    and ft: "feedback (tweet s) = None \<longleftrightarrow> count_list pre Tweet_critique = 0"
    and fl: "feedback (linkedin_post s) = None \<longleftrightarrow> count_list pre Linkedin_critique = 0"
    and ct: "count_list pre Tweet_critique \<le> count_list pre Tweet_writer"
    and cl: "count_list pre Linkedin_critique \<le> count_list pre Linkedin_writer"
    and ed: "pre \<noteq> [] \<longrightarrow> edit_text s \<noteq> None"
    unfolding point_ok_def by blast+
  from node_fn_Inl[OF raised] consider
      (gen) "\<exists>m sys usr. e = GenerationFailure m \<and> llm sys usr = Failure m"
    | (key) "edit_text s = None" "n \<noteq> Editor"
    | (tc) "n = Tweet_critique" "drafts (tweet s) = []"
    | (lc) "n = Linkedin_critique" "drafts (linkedin_post s) = []"
    | (tw) "n = Tweet_writer" "drafts (tweet s) = []" "truthy (feedback (tweet s))"
    | (lw) "n = Linkedin_writer" "drafts (linkedin_post s) = []"
        "truthy (feedback (linkedin_post s))"
    by (elim disjE conjE) blast+
  then show ?thesis
  proof cases
    case gen
    then show ?thesis .
  next
    case key
    from key(2) pre have "pre \<noteq> []" by (cases n) auto
    with ed key(1) show ?thesis by simp
  next
    case tc
    with pre t show ?thesis by simp
  next
    case lc
    with pre l show ?thesis by simp
  next
    case tw
    from tw(3) have "feedback (tweet s) \<noteq> None" by (rule truthy_Some)
    with ft ct t tw(2) show ?thesis by simp
  next
    case lw
    from lw(3) have "feedback (linkedin_post s) \<noteq> None" by (rule truthy_Some)
    with fl cl l lw(2) show ?thesis by simp
  qed
qed

lemma critique_tweet_prompt_feedback:
  "critique_tweet_prompt (s\<lparr>tweet := (tweet s)\<lparr>feedback := x\<rparr>\<rparr>) = critique_tweet_prompt s"
  by (simp add: critique_tweet_prompt_def split: option.splits sum.splits)

lemma critique_linkedin_prompt_feedback:
  "critique_linkedin_prompt (s\<lparr>linkedin_post := (linkedin_post s)\<lparr>feedback := x\<rparr>\<rparr>) =
     critique_linkedin_prompt s"
  by (simp add: critique_linkedin_prompt_def split: option.splits sum.splits)

lemma point_ok_step:
  assumes ok: "point_ok svc pre s" and pre: "pre_ok n pre"
    and ret: "node_fn n s (svc k) = Inr u"
  shows "point_ok svc (pre @ [n]) (apply_update s u)"
proof (cases n)
  case Editor
  with node_fn_Inr_call[OF ret] obtain c where u: "u = Edit_text c" by blast
  from Editor pre have "pre = []" by simp
  with ok show ?thesis
    unfolding point_ok_def Editor u by simp
next
  case Tweet_writer
  with node_fn_Inr_call[OF ret] obtain c
    where u: "u = Tweet ((tweet s)\<lparr>drafts := drafts (tweet s) @ [c]\<rparr>)" by blast
  from Tweet_writer pre have "pre \<noteq> []" by simp
  with ok show ?thesis
    unfolding point_ok_def Tweet_writer u by simp
next
  case Linkedin_writer
  with node_fn_Inr_call[OF ret] obtain c
    where u: "u = Linkedin_post ((linkedin_post s)\<lparr>drafts := drafts (linkedin_post s) @ [c]\<rparr>)"
    by blast
  from Linkedin_writer pre have "pre \<noteq> []" by simp
  with ok show ?thesis
    unfolding point_ok_def Linkedin_writer u by simp
next
  case Tweet_critique
  with node_fn_Inr_call[OF ret] obtain p c
    where p: "critique_tweet_prompt s = Inr p"
      and c: "svc k TWITTER_CRITIQUE_PROMPT p = Response c"
      and u: "u = Tweet ((tweet s)\<lparr>feedback := Some c\<rparr>)" by blast
  have "critiqued_tweet svc (apply_update s u)"
    unfolding critiqued_tweet_def u using p c
    by (auto simp: critique_tweet_prompt_feedback)
  moreover from Tweet_critique pre have "pre \<noteq> []"
    and "count_list pre Tweet_writer = count_list pre Tweet_critique + 1" by simp_all
  ultimately show ?thesis
    using ok unfolding point_ok_def Tweet_critique u by simp
next
  case Linkedin_critique
  with node_fn_Inr_call[OF ret] obtain p c
    where p: "critique_linkedin_prompt s = Inr p"
      and c: "svc k LINKEDIN_CRITIQUE_PROMPT p = Response c"
      and u: "u = Linkedin_post ((linkedin_post s)\<lparr>feedback := Some c\<rparr>)" by blast
  have "critiqued_linkedin svc (apply_update s u)"
    unfolding critiqued_linkedin_def u using p c
    by (auto simp: critique_linkedin_prompt_feedback)
  moreover from Linkedin_critique pre have "pre \<noteq> []"
    and "count_list pre Linkedin_writer = count_list pre Linkedin_critique + 1" by simp_all
  ultimately show ?thesis
    using ok unfolding point_ok_def Linkedin_critique u by simp
next
  case Supervisor
  with node_fn_Inr_call[OF ret] have u: "u = Whole s" by blast
  from Supervisor pre have "pre \<noteq> []"
    and "count_list pre Tweet_writer = count_list pre Supervisor + 1"
    and "count_list pre Linkedin_writer = count_list pre Supervisor + 1" by simp_all
  with ok show ?thesis
    unfolding point_ok_def Supervisor u by simp
qed

lemma consistent_step:
  assumes c: "consistent svc r" and pre: "pre_ok n (nodes r)"
    and ret: "node_fn n (store r) (svc (calls r)) = Inr u"
  shows "consistent svc (record_node n u r)"
proof -
  from c have ok: "point_ok svc (nodes r) (store r)"
    and pts: "\<forall>p \<in> set (points (trace r)). point_ok svc (fst p) (snd p)"
    and calls: "calls r = length (filter (\<lambda>n. n \<noteq> Supervisor) (nodes r))"
    and ans: "\<forall>j < calls r. \<exists>sys usr c. svc j sys usr = Response c"
    unfolding consistent_def by blast+
  have new: "point_ok svc (nodes r @ [n]) (apply_update (store r) u)"
    by (rule point_ok_step[OF ok pre ret])
  have 1: "point_ok svc (nodes (record_node n u r)) (store (record_node n u r))"
    using new by (simp add: nodes_record_node record_node_sel)
  have 2: "\<forall>p \<in> set (points (trace (record_node n u r))). point_ok svc (fst p) (snd p)"
    using pts new by (simp add: record_node_sel points_snoc nodes_def)
  have 3: "calls (record_node n u r) =
      length (filter (\<lambda>n. n \<noteq> Supervisor) (nodes (record_node n u r)))"
    using calls by (simp add: record_node_sel nodes_record_node)
  have 4: "\<forall>j < calls (record_node n u r). \<exists>sys usr c. svc j sys usr = Response c"
  proof (cases "n = Supervisor")
    case True
    with ans show ?thesis by (simp add: record_node_sel)
  next
    case False
    with node_fn_Inr_call[OF ret] have "\<exists>sys usr c. svc (calls r) sys usr = Response c"
      by (cases n) blast+
    with ans False show ?thesis
      by (auto simp: record_node_sel less_Suc_eq)
  qed
  from 1 2 3 4 show ?thesis
    unfolding consistent_def by blast
qed

lemma superstep_step:
  assumes "consistent svc r" and "seq_ok ns (nodes r)" and "superstep svc ns r = (f, r')"
  shows "consistent svc r' \<and> n_drafts (store r') = n_drafts (store r) \<and>
         (f = None \<longrightarrow> nodes r' = nodes r @ ns) \<and>
         (\<forall>n e. f = Some (n, e) \<longrightarrow>
            (\<exists>m sys usr. e = GenerationFailure m \<and> svc (calls r') sys usr = Failure m))"
  using assms
proof (induction ns arbitrary: r)
  case Nil
  then show ?case by simp
next
  case (Cons n ns)
  from Cons.prems(2) have pre: "pre_ok n (nodes r)" and rest: "seq_ok ns (nodes r @ [n])"
    by simp_all
  from Cons.prems(1) have ok: "point_ok svc (nodes r) (store r)"
    unfolding consistent_def by blast
  show ?case
  proof (cases "node_fn n (store r) (svc (calls r))")
    case (Inl e)
    with Cons.prems(3) have f: "f = Some (n, e)" and r': "r' = r" by simp_all
    from node_safe[OF ok pre Inl] Cons.prems(1) show ?thesis
      unfolding f r' by simp
  next
    case (Inr u)
    with Cons.prems(3) have sup: "superstep svc ns (record_node n u r) = (f, r')" by simp
    have c: "consistent svc (record_node n u r)"
      by (rule consistent_step[OF Cons.prems(1) pre Inr])
    from rest have s: "seq_ok ns (nodes (record_node n u r))"
      by (simp add: nodes_record_node)
    from record_node_lengths[OF Inr] have nd: "n_drafts (store (record_node n u r)) = n_drafts (store r)"
      by blast
    from Cons.IH[OF c s sup] nd show ?thesis
      by (simp add: nodes_record_node)
  qed
qed

section \<open>The succession of the active stages\<close>

lemma next_nodes_Editor: "next_nodes s [Editor] = [Tweet_writer, Linkedin_writer]"
  by (simp add: next_nodes_def targets_def edges_def)

lemma next_nodes_writers:
  "next_nodes s [Tweet_writer, Linkedin_writer] = [Supervisor]"
  "next_nodes s [Linkedin_writer, Tweet_writer] = [Supervisor]"
  by (simp_all add: next_nodes_def targets_def edges_def)

lemma next_nodes_critiques:
  "next_nodes s [Linkedin_critique, Tweet_critique] = [Linkedin_writer, Tweet_writer]"
  by (simp add: next_nodes_def targets_def edges_def)

lemma next_nodes_Supervisor:
  "next_nodes s [Supervisor] =
     (if n_drafts s \<le> int (length (drafts (tweet s))) \<and>
         n_drafts s \<le> int (length (drafts (linkedin_post s)))
      then [] else [Linkedin_critique, Tweet_critique])"
  by (simp add: next_nodes_def targets_def should_rewrite_def Let_def)

lemma phase_cases:
  assumes "phase n A pre"
  obtains
    (editor) "A = [Editor]" "pre = []"
  | (writers) "A = [Tweet_writer, Linkedin_writer] \<or> A = [Linkedin_writer, Tweet_writer]"
      "pre \<noteq> []"
      "count_list pre Tweet_writer = count_list pre Supervisor"
      "count_list pre Linkedin_writer = count_list pre Supervisor"
      "count_list pre Tweet_critique = count_list pre Supervisor"
      "count_list pre Linkedin_critique = count_list pre Supervisor"
      "count_list pre Supervisor = 0 \<or> int (count_list pre Supervisor) < n"
  | (supervisor) "A = [Supervisor]" "pre \<noteq> []"
      "count_list pre Tweet_writer = count_list pre Supervisor + 1"
      "count_list pre Linkedin_writer = count_list pre Supervisor + 1"
      "count_list pre Tweet_critique = count_list pre Supervisor"
      "count_list pre Linkedin_critique = count_list pre Supervisor"
      "count_list pre Supervisor = 0 \<or> int (count_list pre Supervisor) < n"
  | (critiques) "A = [Linkedin_critique, Tweet_critique]" "pre \<noteq> []"
      "count_list pre Tweet_writer = count_list pre Supervisor"
      "count_list pre Linkedin_writer = count_list pre Supervisor"
      "count_list pre Tweet_critique + 1 = count_list pre Supervisor"
      "count_list pre Linkedin_critique + 1 = count_list pre Supervisor"
      "int (count_list pre Supervisor) < n"
  | (finished) "A = []"
      "count_list pre Tweet_writer = count_list pre Supervisor"
      "count_list pre Linkedin_writer = count_list pre Supervisor"
      "count_list pre Tweet_critique + 1 = count_list pre Supervisor"
      "count_list pre Linkedin_critique + 1 = count_list pre Supervisor"
      "n \<le> int (count_list pre Supervisor)"
      "count_list pre Supervisor = 1 \<or> int (count_list pre Supervisor) \<le> n"
proof -
  from assms consider
      "A = [Editor] \<and> pre = []"
    | "(A = [Tweet_writer, Linkedin_writer] \<or> A = [Linkedin_writer, Tweet_writer]) \<and>
       pre \<noteq> [] \<and>
       count_list pre Tweet_writer = count_list pre Supervisor \<and>
       count_list pre Linkedin_writer = count_list pre Supervisor \<and>
       count_list pre Tweet_critique = count_list pre Supervisor \<and>
       count_list pre Linkedin_critique = count_list pre Supervisor \<and>
       (count_list pre Supervisor = 0 \<or> int (count_list pre Supervisor) < n)"
    | "A = [Supervisor] \<and> pre \<noteq> [] \<and>
       count_list pre Tweet_writer = count_list pre Supervisor + 1 \<and>
       count_list pre Linkedin_writer = count_list pre Supervisor + 1 \<and>
       count_list pre Tweet_critique = count_list pre Supervisor \<and>
       count_list pre Linkedin_critique = count_list pre Supervisor \<and>
       (count_list pre Supervisor = 0 \<or> int (count_list pre Supervisor) < n)"
    | "A = [Linkedin_critique, Tweet_critique] \<and> pre \<noteq> [] \<and>
       count_list pre Tweet_writer = count_list pre Supervisor \<and>
       count_list pre Linkedin_writer = count_list pre Supervisor \<and>
       count_list pre Tweet_critique + 1 = count_list pre Supervisor \<and>
       count_list pre Linkedin_critique + 1 = count_list pre Supervisor \<and>
       int (count_list pre Supervisor) < n"
    | "A = [] \<and>
       count_list pre Tweet_writer = count_list pre Supervisor \<and>
       count_list pre Linkedin_writer = count_list pre Supervisor \<and>
       count_list pre Tweet_critique + 1 = count_list pre Supervisor \<and>
       count_list pre Linkedin_critique + 1 = count_list pre Supervisor \<and>
       n \<le> int (count_list pre Supervisor) \<and>
       (count_list pre Supervisor = 1 \<or> int (count_list pre Supervisor) \<le> n)"
    unfolding phase_def Let_def by (elim disjE) (erule that)+
  then show ?thesis
  proof cases
    case 1
    then show ?thesis by (intro editor) (erule conjunct1, erule conjunct2)
  next
    case 2
    then show ?thesis by (intro writers) simp_all
  next
    case 3
    then show ?thesis by (intro supervisor) simp_all
  next
    case 4
    then show ?thesis by (intro critiques) simp_all
  next
    case 5
    then show ?thesis by (intro finished) simp_all
  qed
qed

lemma phase_seq_ok:
  assumes "phase n A pre"
  shows "seq_ok A pre"
  using assms
proof (cases rule: phase_cases)
  case editor
  then show ?thesis by simp
next
  case writers
  then show ?thesis by auto
next
  case supervisor
  then show ?thesis by simp
next
  case critiques
  then show ?thesis by simp
next
  case finished
  then show ?thesis by simp
qed

lemma phase_next:
  assumes ph: "phase n A pre" and ne: "A \<noteq> []"
    and ok: "point_ok svc (pre @ A) s" and nd: "n_drafts s = n"
  shows "phase n (next_nodes s A) (pre @ A)"
  using ph
proof (cases rule: phase_cases)
  case editor
  then show ?thesis
    by (simp add: next_nodes_Editor phase_def)
next
  case writers
  from writers(1) have nx: "next_nodes s A = [Supervisor]"
    by (auto simp: next_nodes_writers)
  from writers show ?thesis
    unfolding nx phase_def Let_def by auto
next
  case supervisor
  from ok have t: "length (drafts (tweet s)) = count_list (pre @ A) Tweet_writer"
    and l: "length (drafts (linkedin_post s)) = count_list (pre @ A) Linkedin_writer"
    unfolding point_ok_def by blast+
  show ?thesis
  proof (cases "n \<le> int (count_list pre Supervisor + 1)")
    case True
    with t l supervisor nd have nx: "next_nodes s A = []"
      by (simp add: next_nodes_Supervisor)
    from supervisor True show ?thesis
      unfolding nx phase_def Let_def by auto
  next
    case False
    with t l supervisor nd have nx: "next_nodes s A = [Linkedin_critique, Tweet_critique]"
      by (simp add: next_nodes_Supervisor)
    from supervisor False show ?thesis
      unfolding nx phase_def Let_def by auto
  qed
next
  case critiques
  then show ?thesis
    by (simp add: next_nodes_critiques phase_def)
next
  case finished
  with ne show ?thesis by simp
qed

lemma exec_step:
  assumes "consistent svc r" and "phase (n_drafts (store r)) A (nodes r)"
    and "exec svc A r = (f, r')"
  shows "consistent svc r' \<and> n_drafts (store r') = n_drafts (store r) \<and>
         (f = None \<longrightarrow> phase (n_drafts (store r)) [] (nodes r')) \<and>
         (\<forall>n e. f = Some (n, e) \<longrightarrow>
            (\<exists>m sys usr. e = GenerationFailure m \<and> svc (calls r') sys usr = Failure m))"
  using assms
proof (induction svc A r rule: exec.induct)
  case (1 svc r)
  then show ?case by simp
next
  case (2 svc n ns r)
  let ?A = "n # ns"
  obtain f1 r1 where sup: "superstep svc ?A r = (f1, r1)"
    by (cases "superstep svc ?A r")
  from phase_seq_ok[OF "2.prems"(2)] have seq: "seq_ok ?A (nodes r)" .
  note S = superstep_step[OF "2.prems"(1) seq sup]
  from S have c1: "consistent svc r1" and nd: "n_drafts (store r1) = n_drafts (store r)"
    by blast+
  show ?case
  proof (cases f1)
    case (Some a)
    with sup "2.prems"(3) have "f = f1" "r' = r1" by simp_all
    with S Some show ?thesis by simp
  next
    case None
    with S have nodes1: "nodes r1 = nodes r @ ?A" by blast
    from c1 have ok: "point_ok svc (nodes r @ ?A) (store r1)"
      unfolding consistent_def nodes1 by blast
    have ph: "phase (n_drafts (store r1)) (next_nodes (store r1) ?A) (nodes r1)"
      unfolding nodes1 nd
      by (rule phase_next[OF "2.prems"(2) _ ok nd]) simp
    from sup None "2.prems"(3)
    have ex: "exec svc (next_nodes (store r1) ?A) r1 = (f, r')" by simp
    from "2.IH"[OF sup[symmetric] None c1 ph ex] nd show ?thesis by simp
  qed
qed

text \<open>The run that \<^verbatim>\<open>main\<close> starts.\<close>

lemma initial_consistent:
  "consistent svc \<lparr>store = initial_state text audience n, calls = 0, trace = []\<rparr>"
  by (simp add: consistent_def point_ok_def nodes_def points_Nil initial_state_def)

lemma invoke_initial:
  assumes "invoke svc (initial_state text audience n) = (f, r')"
  shows "consistent svc r' \<and> n_drafts (store r') = n \<and>
         (f = None \<longrightarrow> phase n [] (nodes r')) \<and>
         (\<forall>nd e. f = Some (nd, e) \<longrightarrow>
            (\<exists>m sys usr. e = GenerationFailure m \<and> svc (calls r') sys usr = Failure m))"
proof -
  let ?r = "\<lparr>store = initial_state text audience n, calls = 0, trace = []\<rparr>"
  have ph: "phase (n_drafts (store ?r)) [entry_point] (nodes ?r)"
    by (simp add: phase_def entry_point_def nodes_def)
  from assms have ex: "exec svc [entry_point] ?r = (f, r')"
    by (simp add: invoke_def)
  from exec_step[OF initial_consistent ph ex] show ?thesis
    by (simp add: initial_state_def)
qed

section \<open>Runs in which the service always answers\<close>





section \<open>Reading the last draft\<close>

lemma points_nonempty: "p \<in> set (points tr) \<Longrightarrow> fst p \<noteq> []"
  by (auto simp: points_def)

lemma point_has_draft:
  assumes "point_ok svc pre s"
  shows "(feedback (tweet s) \<noteq> None \<longrightarrow> drafts (tweet s) \<noteq> []) \<and>
         (feedback (linkedin_post s) \<noteq> None \<longrightarrow> drafts (linkedin_post s) \<noteq> [])"
proof -
  from assms have t: "length (drafts (tweet s)) = count_list pre Tweet_writer"
    and l: "length (drafts (linkedin_post s)) = count_list pre Linkedin_writer"
    and ft: "feedback (tweet s) = None \<longleftrightarrow> count_list pre Tweet_critique = 0"
    and fl: "feedback (linkedin_post s) = None \<longleftrightarrow> count_list pre Linkedin_critique = 0"
    and ct: "count_list pre Tweet_critique \<le> count_list pre Tweet_writer"
    and cl: "count_list pre Linkedin_critique \<le> count_list pre Linkedin_writer"
    unfolding point_ok_def by blast+
  have "drafts (tweet s) \<noteq> []" if "feedback (tweet s) \<noteq> None"
    using that ft ct t by (cases "drafts (tweet s)") auto
  moreover have "drafts (linkedin_post s) \<noteq> []" if "feedback (linkedin_post s) \<noteq> None"
    using that fl cl l by (cases "drafts (linkedin_post s)") auto
  ultimately show ?thesis by blast
qed

text \<open>
  Claim C10. No run from two empty posts raises \<^verbatim>\<open>IndexError\<close>, whatever the service
  does: an aborted run was aborted by a failure of the service. The writers read
  \<^verbatim>\<open>drafts[-1]\<close> only when the feedback is true, the critiques always; and at every point of
  the run a post that has feedback has a draft, and a post that was just critiqued has a
  draft.
\<close>

theorem last_draft_access_safe:
  "(\<forall>nd e. fst (invoke svc (initial_state utext audience n)) = Some (nd, e) \<longrightarrow>
      e \<noteq> IndexError \<and> (\<exists>m. e = GenerationFailure m)) \<and>
   main_generate svc utext audience n \<noteq> Inl IndexError \<and>
   (\<forall>p \<in> set (points (trace (snd (invoke svc (initial_state utext audience n))))).
      (feedback (tweet (snd p)) \<noteq> None \<longrightarrow> drafts (tweet (snd p)) \<noteq> []) \<and>
      (feedback (linkedin_post (snd p)) \<noteq> None \<longrightarrow> drafts (linkedin_post (snd p)) \<noteq> []) \<and>
      (last (fst p) = Tweet_critique \<longrightarrow> drafts (tweet (snd p)) \<noteq> []) \<and>
      (last (fst p) = Linkedin_critique \<longrightarrow> drafts (linkedin_post (snd p)) \<noteq> [])) \<and>
   (tweet_writer_node s llm = Inl IndexError \<longrightarrow>
      truthy (feedback (tweet s)) \<and> drafts (tweet s) = []) \<and>
   (linkedin_writer_node s llm = Inl IndexError \<longrightarrow>
      truthy (feedback (linkedin_post s)) \<and> drafts (linkedin_post s) = []) \<and>
   (critique_tweet_node s llm = Inl IndexError \<longrightarrow> drafts (tweet s) = []) \<and>
   (critique_linkedin_node s llm = Inl IndexError \<longrightarrow> drafts (linkedin_post s) = [])"
proof -
  obtain f r where inv: "invoke svc (initial_state utext audience n) = (f, r)"
    by (cases "invoke svc (initial_state utext audience n)")
  note I = invoke_initial[OF inv]
  have 1: "\<forall>nd e. fst (invoke svc (initial_state utext audience n)) = Some (nd, e) \<longrightarrow>
      e \<noteq> IndexError \<and> (\<exists>m. e = GenerationFailure m)"
    using I inv by auto
  have 2: "main_generate svc utext audience n \<noteq> Inl IndexError"
  proof (cases f)
    case None
    with inv show ?thesis by (simp add: main_generate_def)
  next
    case (Some a)
    obtain nd e where a: "a = (nd, e)" by (cases a)
    from I Some a have "e \<noteq> IndexError" by auto
    with inv Some a show ?thesis by (simp add: main_generate_def)
  qed
  from I have pts: "\<forall>p \<in> set (points (trace r)). point_ok svc (fst p) (snd p)"
    unfolding consistent_def by blast
  have 3: "\<forall>p \<in> set (points (trace (snd (invoke svc (initial_state utext audience n))))).
      (feedback (tweet (snd p)) \<noteq> None \<longrightarrow> drafts (tweet (snd p)) \<noteq> []) \<and>
      (feedback (linkedin_post (snd p)) \<noteq> None \<longrightarrow> drafts (linkedin_post (snd p)) \<noteq> []) \<and>
      (last (fst p) = Tweet_critique \<longrightarrow> drafts (tweet (snd p)) \<noteq> []) \<and>
      (last (fst p) = Linkedin_critique \<longrightarrow> drafts (linkedin_post (snd p)) \<noteq> [])"
  proof
    fix p
    assume "p \<in> set (points (trace (snd (invoke svc (initial_state utext audience n)))))"
    with inv have p: "p \<in> set (points (trace r))" by simp
    with pts have ok: "point_ok svc (fst p) (snd p)" by blast
    from points_nonempty[OF p] have ne: "fst p \<noteq> []" .
    from ok have ft: "feedback (tweet (snd p)) = None \<longleftrightarrow> count_list (fst p) Tweet_critique = 0"
      and fl: "feedback (linkedin_post (snd p)) = None \<longleftrightarrow>
                 count_list (fst p) Linkedin_critique = 0"
      unfolding point_ok_def by blast+
    have "count_list (fst p) (last (fst p)) \<noteq> 0"
      using ne by (simp add: count_list_0_iff)
    with ft fl point_has_draft[OF ok]
    show "(feedback (tweet (snd p)) \<noteq> None \<longrightarrow> drafts (tweet (snd p)) \<noteq> []) \<and>
      (feedback (linkedin_post (snd p)) \<noteq> None \<longrightarrow> drafts (linkedin_post (snd p)) \<noteq> []) \<and>
      (last (fst p) = Tweet_critique \<longrightarrow> drafts (tweet (snd p)) \<noteq> []) \<and>
      (last (fst p) = Linkedin_critique \<longrightarrow> drafts (linkedin_post (snd p)) \<noteq> [])"
      by metis
  qed
  have 4: "tweet_writer_node s llm = Inl IndexError \<longrightarrow>
      truthy (feedback (tweet s)) \<and> drafts (tweet s) = []"
    using node_fn_Inl[of Tweet_writer s llm IndexError] by auto
  have 5: "linkedin_writer_node s llm = Inl IndexError \<longrightarrow>
      truthy (feedback (linkedin_post s)) \<and> drafts (linkedin_post s) = []"
    using node_fn_Inl[of Linkedin_writer s llm IndexError] by auto
  have 6: "critique_tweet_node s llm = Inl IndexError \<longrightarrow> drafts (tweet s) = []"
    using node_fn_Inl[of Tweet_critique s llm IndexError] by auto
  have 7: "critique_linkedin_node s llm = Inl IndexError \<longrightarrow> drafts (linkedin_post s) = []"
    using node_fn_Inl[of Linkedin_critique s llm IndexError] by auto
  from 1 2 3 4 5 6 7 show ?thesis
    by (intro conjI)
qed

theorem last_draft_access_safe_witness:
  "fst (invoke (failing_at 3) (initial_state ''X'' ''a'' 2)) \<noteq> Some (Linkedin_critique, IndexError) \<and>
   main_generate (failing_at 3) ''X'' ''a'' 2 \<noteq> Inl IndexError \<and>
   tweet_writer_node (mid_state\<lparr>tweet := \<lparr>drafts = [], feedback = Some ''f''\<rparr>\<rparr>) echo_llm
     = Inl IndexError \<and>
   truthy (feedback (tweet (mid_state\<lparr>tweet := \<lparr>drafts = [], feedback = Some ''f''\<rparr>\<rparr>)))"
proof -
  have w: "tweet_writer_node (mid_state\<lparr>tweet := \<lparr>drafts = [], feedback = Some ''f''\<rparr>\<rparr>) echo_llm
     = Inl IndexError"
    by (simp add: tweet_writer_node_def tweet_feedback_prompt_eq Let_def mid_state_def truthy_def)
  from last_draft_access_safe[of "failing_at 3" "''X''" "''a''" 2
      "mid_state\<lparr>tweet := \<lparr>drafts = [], feedback = Some ''f''\<rparr>\<rparr>" echo_llm] w
  show ?thesis by blast
qed

section \<open>Termination\<close>





section \<open>The critiques\<close>

lemma critique_tweet_prompt_eq:
  "critique_tweet_prompt s =
     (case edit_text s of
        None \<Rightarrow> Inl KeyError
      | Some et \<Rightarrow>
          if drafts (tweet s) = [] then Inl IndexError
          else Inr (''Full post:\<newline>```\<newline>'' @ et @
                    ''\<newline>```\<newline>\<newline>Suggested tweet (critique this):\<newline>```\<newline>'' @
                    last (drafts (tweet s)) @
                    ''\<newline>```\<newline>\<newline>Target audience:'' @
                    rev (dropWhile py_isspace (rev ('' '' @ target_audience s @ ''\<newline>'')))))"
proof -
  have "py_strip (CHR ''\<newline>'' # CHR ''F'' #
          (''ull post:\<newline>```\<newline>'' @ et @
           ''\<newline>```\<newline>\<newline>Suggested tweet (critique this):\<newline>```\<newline>'' @ d @
           ''\<newline>```\<newline>\<newline>Target audience'') @ CHR '':'' # ('' '' @ a @ ''\<newline>''))
        = CHR ''F'' # (''ull post:\<newline>```\<newline>'' @ et @
           ''\<newline>```\<newline>\<newline>Suggested tweet (critique this):\<newline>```\<newline>'' @ d @
           ''\<newline>```\<newline>\<newline>Target audience'') @ CHR '':'' #
           rev (dropWhile py_isspace (rev ('' '' @ a @ ''\<newline>'')))" for et d a
    by (rule py_strip_frame[OF not_space_F not_space_colon])
  then show ?thesis
    by (simp add: critique_tweet_prompt_def py_last_def split: option.splits)
qed

lemma critique_linkedin_prompt_eq:
  "critique_linkedin_prompt s =
     (case edit_text s of
        None \<Rightarrow> Inl KeyError
      | Some et \<Rightarrow>
          if drafts (linkedin_post s) = [] then Inl IndexError
          else Inr (''Full post:\<newline>```\<newline>'' @ et @
                    ''\<newline>```\<newline>\<newline>Suggested LinkedIn post (critique this):\<newline>```\<newline>'' @
                    last (drafts (linkedin_post s)) @
                    ''\<newline>```\<newline>\<newline>Target audience:'' @
                    rev (dropWhile py_isspace (rev ('' '' @ target_audience s @ ''\<newline>'')))))"
proof -
  have "py_strip (CHR ''\<newline>'' # CHR ''F'' #
          (''ull post:\<newline>```\<newline>'' @ et @
           ''\<newline>```\<newline>\<newline>Suggested LinkedIn post (critique this):\<newline>```\<newline>'' @ d @
           ''\<newline>```\<newline>\<newline>Target audience'') @ CHR '':'' # ('' '' @ a @ ''\<newline>''))
        = CHR ''F'' # (''ull post:\<newline>```\<newline>'' @ et @
           ''\<newline>```\<newline>\<newline>Suggested LinkedIn post (critique this):\<newline>```\<newline>'' @ d @
           ''\<newline>```\<newline>\<newline>Target audience'') @ CHR '':'' #
           rev (dropWhile py_isspace (rev ('' '' @ a @ ''\<newline>'')))" for et d a
    by (rule py_strip_frame[OF not_space_F not_space_colon])
  then show ?thesis
    by (simp add: critique_linkedin_prompt_def py_last_def split: option.splits)
qed

lemma critique_tweet_prompt_sublist:
  assumes "critique_tweet_prompt s = Inr q"
  shows "drafts (tweet s) \<noteq> [] \<and> sublist (last (drafts (tweet s))) q"
proof -
  from assms obtain et where et: "edit_text s = Some et" and ne: "drafts (tweet s) \<noteq> []"
    and q: "q = (''Full post:\<newline>```\<newline>'' @ et @
                    ''\<newline>```\<newline>\<newline>Suggested tweet (critique this):\<newline>```\<newline>'') @
                    last (drafts (tweet s)) @
                    (''\<newline>```\<newline>\<newline>Target audience:'' @
                    rev (dropWhile py_isspace (rev ('' '' @ target_audience s @ ''\<newline>''))))"
    unfolding critique_tweet_prompt_eq
    by (cases "edit_text s") (auto split: if_splits)
  have "sublist (last (drafts (tweet s))) q"
    unfolding q by (rule sublist_appendI)
  with ne show ?thesis by simp
qed

lemma critique_linkedin_prompt_sublist:
  assumes "critique_linkedin_prompt s = Inr q"
  shows "drafts (linkedin_post s) \<noteq> [] \<and> sublist (last (drafts (linkedin_post s))) q"
proof -
  from assms obtain et where et: "edit_text s = Some et"
    and ne: "drafts (linkedin_post s) \<noteq> []"
    and q: "q = (''Full post:\<newline>```\<newline>'' @ et @
                    ''\<newline>```\<newline>\<newline>Suggested LinkedIn post (critique this):\<newline>```\<newline>'') @
                    last (drafts (linkedin_post s)) @
                    (''\<newline>```\<newline>\<newline>Target audience:'' @
                    rev (dropWhile py_isspace (rev ('' '' @ target_audience s @ ''\<newline>''))))"
    unfolding critique_linkedin_prompt_eq
    by (cases "edit_text s") (auto split: if_splits)
  have "sublist (last (drafts (linkedin_post s))) q"
    unfolding q by (rule sublist_appendI)
  with ne show ?thesis by simp
qed

text \<open>
  Claim C6. At every point of a run from two empty posts, and in the state where the run
  ends or is aborted, the feedback of a platform is absent exactly when no critique of
  that platform has been completed. A critique that returns replaces the feedback by the
  answer of the service to a prompt that contains the last draft, and changes nothing
  else; and at the point after the N-th critique of a platform, the platform has exactly
  N drafts and its feedback is the answer to a prompt that contains the draft at
  position N.
\<close>

theorem feedback_tracks_critiques:
  "(\<forall>p \<in> set (points (trace (snd (invoke svc (initial_state utext audience n))))).
      (feedback (tweet (snd p)) = None \<longleftrightarrow> count_list (fst p) Tweet_critique = 0) \<and>
      (feedback (linkedin_post (snd p)) = None \<longleftrightarrow> count_list (fst p) Linkedin_critique = 0) \<and>
      (last (fst p) = Tweet_critique \<longrightarrow>
         length (drafts (tweet (snd p))) = count_list (fst p) Tweet_critique \<and>
         (\<exists>k q c. critique_tweet_prompt (snd p) = Inr q \<and>
            sublist (drafts (tweet (snd p)) ! (count_list (fst p) Tweet_critique - 1)) q \<and>
            svc k TWITTER_CRITIQUE_PROMPT q = Response c \<and>
            feedback (tweet (snd p)) = Some c)) \<and>
      (last (fst p) = Linkedin_critique \<longrightarrow>
         length (drafts (linkedin_post (snd p))) = count_list (fst p) Linkedin_critique \<and>
         (\<exists>k q c. critique_linkedin_prompt (snd p) = Inr q \<and>
            sublist (drafts (linkedin_post (snd p)) ! (count_list (fst p) Linkedin_critique - 1)) q \<and>
            svc k LINKEDIN_CRITIQUE_PROMPT q = Response c \<and>
            feedback (linkedin_post (snd p)) = Some c))) \<and>
   (feedback (tweet (store (snd (invoke svc (initial_state utext audience n))))) = None \<longleftrightarrow>
      count_list (nodes (snd (invoke svc (initial_state utext audience n)))) Tweet_critique = 0) \<and>
   (feedback (linkedin_post (store (snd (invoke svc (initial_state utext audience n))))) = None \<longleftrightarrow>
      count_list (nodes (snd (invoke svc (initial_state utext audience n)))) Linkedin_critique = 0) \<and>
   (critique_tweet_node s llm = Inr u \<longrightarrow>
      (\<exists>q c. critique_tweet_prompt s = Inr q \<and> sublist (last (drafts (tweet s))) q \<and>
         llm TWITTER_CRITIQUE_PROMPT q = Response c \<and>
         apply_update s u = s\<lparr>tweet := \<lparr>drafts = drafts (tweet s), feedback = Some c\<rparr>\<rparr>)) \<and>
   (critique_linkedin_node s llm = Inr u \<longrightarrow>
      (\<exists>q c. critique_linkedin_prompt s = Inr q \<and> sublist (last (drafts (linkedin_post s))) q \<and>
         llm LINKEDIN_CRITIQUE_PROMPT q = Response c \<and>
         apply_update s u =
           s\<lparr>linkedin_post := \<lparr>drafts = drafts (linkedin_post s), feedback = Some c\<rparr>\<rparr>))"
proof -
  let ?init = "initial_state utext audience n"
  obtain f r where inv: "invoke svc ?init = (f, r)"
    by (cases "invoke svc ?init")
  from invoke_initial[OF inv] have c: "consistent svc r" by blast
  from c have ok: "point_ok svc (nodes r) (store r)"
    and pts: "\<forall>p \<in> set (points (trace r)). point_ok svc (fst p) (snd p)"
    unfolding consistent_def by blast+
  have post_eq: "p\<lparr>feedback := x\<rparr> = \<lparr>drafts = drafts p, feedback = x\<rparr>" for p :: Post and x
    by (cases p) simp
  have 1: "\<forall>p \<in> set (points (trace (snd (invoke svc ?init)))).
      (feedback (tweet (snd p)) = None \<longleftrightarrow> count_list (fst p) Tweet_critique = 0) \<and>
      (feedback (linkedin_post (snd p)) = None \<longleftrightarrow> count_list (fst p) Linkedin_critique = 0) \<and>
      (last (fst p) = Tweet_critique \<longrightarrow>
         length (drafts (tweet (snd p))) = count_list (fst p) Tweet_critique \<and>
         (\<exists>k q c. critique_tweet_prompt (snd p) = Inr q \<and>
            sublist (drafts (tweet (snd p)) ! (count_list (fst p) Tweet_critique - 1)) q \<and>
            svc k TWITTER_CRITIQUE_PROMPT q = Response c \<and>
            feedback (tweet (snd p)) = Some c)) \<and>
      (last (fst p) = Linkedin_critique \<longrightarrow>
         length (drafts (linkedin_post (snd p))) = count_list (fst p) Linkedin_critique \<and>
         (\<exists>k q c. critique_linkedin_prompt (snd p) = Inr q \<and>
            sublist (drafts (linkedin_post (snd p)) ! (count_list (fst p) Linkedin_critique - 1)) q \<and>
            svc k LINKEDIN_CRITIQUE_PROMPT q = Response c \<and>
            feedback (linkedin_post (snd p)) = Some c))"
  proof
    fix p
    assume "p \<in> set (points (trace (snd (invoke svc ?init))))"
    with inv have p: "p \<in> set (points (trace r))" by simp
    with pts have okp: "point_ok svc (fst p) (snd p)" by blast
    from points_nonempty[OF p] have ne: "fst p \<noteq> []" .
    from okp have a: "feedback (tweet (snd p)) = None \<longleftrightarrow> count_list (fst p) Tweet_critique = 0"
      and b: "feedback (linkedin_post (snd p)) = None \<longleftrightarrow>
                count_list (fst p) Linkedin_critique = 0"
      and t: "length (drafts (tweet (snd p))) = count_list (fst p) Tweet_writer"
      and l: "length (drafts (linkedin_post (snd p))) = count_list (fst p) Linkedin_writer"
      unfolding point_ok_def by blast+
    have tc: "length (drafts (tweet (snd p))) = count_list (fst p) Tweet_critique \<and>
         (\<exists>k q c. critique_tweet_prompt (snd p) = Inr q \<and>
            sublist (drafts (tweet (snd p)) ! (count_list (fst p) Tweet_critique - 1)) q \<and>
            svc k TWITTER_CRITIQUE_PROMPT q = Response c \<and>
            feedback (tweet (snd p)) = Some c)"
      if last: "last (fst p) = Tweet_critique"
    proof -
      from okp ne last have eq: "count_list (fst p) Tweet_critique = count_list (fst p) Tweet_writer"
        and cr: "critiqued_tweet svc (snd p)"
        unfolding point_ok_def by blast+
      from cr obtain k q c where q: "critique_tweet_prompt (snd p) = Inr q"
        and r: "svc k TWITTER_CRITIQUE_PROMPT q = Response c"
        and fb: "feedback (tweet (snd p)) = Some c"
        unfolding critiqued_tweet_def by blast
      from critique_tweet_prompt_sublist[OF q]
      have d: "drafts (tweet (snd p)) \<noteq> []" and sub: "sublist (last (drafts (tweet (snd p)))) q"
        by blast+
      from d t eq have "last (drafts (tweet (snd p))) =
          drafts (tweet (snd p)) ! (count_list (fst p) Tweet_critique - 1)"
        by (simp add: last_conv_nth)
      with sub q r fb t eq show ?thesis by auto
    qed
    have lc: "length (drafts (linkedin_post (snd p))) = count_list (fst p) Linkedin_critique \<and>
         (\<exists>k q c. critique_linkedin_prompt (snd p) = Inr q \<and>
            sublist (drafts (linkedin_post (snd p)) ! (count_list (fst p) Linkedin_critique - 1)) q \<and>
            svc k LINKEDIN_CRITIQUE_PROMPT q = Response c \<and>
            feedback (linkedin_post (snd p)) = Some c)"
      if last: "last (fst p) = Linkedin_critique"
    proof -
      from okp ne last
      have eq: "count_list (fst p) Linkedin_critique = count_list (fst p) Linkedin_writer"
        and cr: "critiqued_linkedin svc (snd p)"
        unfolding point_ok_def by blast+
      from cr obtain k q c where q: "critique_linkedin_prompt (snd p) = Inr q"
        and r: "svc k LINKEDIN_CRITIQUE_PROMPT q = Response c"
        and fb: "feedback (linkedin_post (snd p)) = Some c"
        unfolding critiqued_linkedin_def by blast
      from critique_linkedin_prompt_sublist[OF q]
      have d: "drafts (linkedin_post (snd p)) \<noteq> []"
        and sub: "sublist (last (drafts (linkedin_post (snd p)))) q"
        by blast+
      from d l eq have "last (drafts (linkedin_post (snd p))) =
          drafts (linkedin_post (snd p)) ! (count_list (fst p) Linkedin_critique - 1)"
        by (simp add: last_conv_nth)
      with sub q r fb l eq show ?thesis by auto
    qed
    from a b tc lc
    show "(feedback (tweet (snd p)) = None \<longleftrightarrow> count_list (fst p) Tweet_critique = 0) \<and>
      (feedback (linkedin_post (snd p)) = None \<longleftrightarrow> count_list (fst p) Linkedin_critique = 0) \<and>
      (last (fst p) = Tweet_critique \<longrightarrow>
         length (drafts (tweet (snd p))) = count_list (fst p) Tweet_critique \<and>
         (\<exists>k q c. critique_tweet_prompt (snd p) = Inr q \<and>
            sublist (drafts (tweet (snd p)) ! (count_list (fst p) Tweet_critique - 1)) q \<and>
            svc k TWITTER_CRITIQUE_PROMPT q = Response c \<and>
            feedback (tweet (snd p)) = Some c)) \<and>
      (last (fst p) = Linkedin_critique \<longrightarrow>
         length (drafts (linkedin_post (snd p))) = count_list (fst p) Linkedin_critique \<and>
         (\<exists>k q c. critique_linkedin_prompt (snd p) = Inr q \<and>
            sublist (drafts (linkedin_post (snd p)) ! (count_list (fst p) Linkedin_critique - 1)) q \<and>
            svc k LINKEDIN_CRITIQUE_PROMPT q = Response c \<and>
            feedback (linkedin_post (snd p)) = Some c))"
      by (intro conjI impI; blast)
  qed
  from ok have 2: "feedback (tweet (store (snd (invoke svc ?init)))) = None \<longleftrightarrow>
      count_list (nodes (snd (invoke svc ?init))) Tweet_critique = 0"
    and 3: "feedback (linkedin_post (store (snd (invoke svc ?init)))) = None \<longleftrightarrow>
      count_list (nodes (snd (invoke svc ?init))) Linkedin_critique = 0"
    unfolding point_ok_def inv by simp_all
  have 4: "critique_tweet_node s llm = Inr u \<longrightarrow>
      (\<exists>q c. critique_tweet_prompt s = Inr q \<and> sublist (last (drafts (tweet s))) q \<and>
         llm TWITTER_CRITIQUE_PROMPT q = Response c \<and>
         apply_update s u = s\<lparr>tweet := \<lparr>drafts = drafts (tweet s), feedback = Some c\<rparr>\<rparr>)"
  proof
    assume "critique_tweet_node s llm = Inr u"
    then have "node_fn Tweet_critique s llm = Inr u" by simp
    from node_fn_Inr_call[OF this] obtain q c where q: "critique_tweet_prompt s = Inr q"
      and r: "llm TWITTER_CRITIQUE_PROMPT q = Response c"
      and u: "u = Tweet ((tweet s)\<lparr>feedback := Some c\<rparr>)" by blast
    from critique_tweet_prompt_sublist[OF q] q r u
    show "\<exists>q c. critique_tweet_prompt s = Inr q \<and> sublist (last (drafts (tweet s))) q \<and>
         llm TWITTER_CRITIQUE_PROMPT q = Response c \<and>
         apply_update s u = s\<lparr>tweet := \<lparr>drafts = drafts (tweet s), feedback = Some c\<rparr>\<rparr>"
      by (auto simp: post_eq)
  qed
  have 5: "critique_linkedin_node s llm = Inr u \<longrightarrow>
      (\<exists>q c. critique_linkedin_prompt s = Inr q \<and> sublist (last (drafts (linkedin_post s))) q \<and>
         llm LINKEDIN_CRITIQUE_PROMPT q = Response c \<and>
         apply_update s u =
           s\<lparr>linkedin_post := \<lparr>drafts = drafts (linkedin_post s), feedback = Some c\<rparr>\<rparr>)"
  proof
    assume "critique_linkedin_node s llm = Inr u"
    then have "node_fn Linkedin_critique s llm = Inr u" by simp
    from node_fn_Inr_call[OF this] obtain q c where q: "critique_linkedin_prompt s = Inr q"
      and r: "llm LINKEDIN_CRITIQUE_PROMPT q = Response c"
      and u: "u = Linkedin_post ((linkedin_post s)\<lparr>feedback := Some c\<rparr>)" by blast
    from critique_linkedin_prompt_sublist[OF q] q r u
    show "\<exists>q c. critique_linkedin_prompt s = Inr q \<and> sublist (last (drafts (linkedin_post s))) q \<and>
         llm LINKEDIN_CRITIQUE_PROMPT q = Response c \<and>
         apply_update s u =
           s\<lparr>linkedin_post := \<lparr>drafts = drafts (linkedin_post s), feedback = Some c\<rparr>\<rparr>"
      by (auto simp: post_eq)
  qed
  from 1 2 3 4 5 show ?thesis
    by (intro conjI)
qed

theorem feedback_tracks_critiques_witness:
  "critique_tweet_node mid_state (always ''x'' 0) =
     Inr (Tweet \<lparr>drafts = [''d''], feedback = Some ''x''\<rparr>) \<and>
   (\<exists>q c. critique_tweet_prompt mid_state = Inr q \<and> sublist ''d'' q \<and>
      always ''x'' 0 TWITTER_CRITIQUE_PROMPT q = Response c \<and>
      apply_update mid_state (Tweet \<lparr>drafts = [''d''], feedback = Some ''x''\<rparr>) =
        mid_state\<lparr>tweet := \<lparr>drafts = [''d''], feedback = Some c\<rparr>\<rparr>) \<and>
   (feedback (tweet (store (snd (invoke (always ''x'') (initial_state ''X'' ''a'' 1))))) = None \<longleftrightarrow>
      count_list (nodes (snd (invoke (always ''x'') (initial_state ''X'' ''a'' 1)))) Tweet_critique = 0)"
proof -
  have ok: "critique_tweet_node mid_state (always ''x'' 0) =
     Inr (Tweet \<lparr>drafts = [''d''], feedback = Some ''x''\<rparr>)"
    by (simp add: critique_tweet_node_def critique_tweet_prompt_def py_last_def Let_def
          mid_state_def always_def)
  have d: "drafts (tweet mid_state) = [''d'']" by (simp add: mid_state_def)
  from feedback_tracks_critiques[of "always ''x''" "''X''" "''a''" 1 mid_state "always ''x'' 0"
      "Tweet \<lparr>drafts = [''d''], feedback = Some ''x''\<rparr>"] ok
  show ?thesis
    unfolding d by simp
qed

section \<open>Failures of the service\<close>




declare exec.simps [simp del]

lemma exec_abort_at_once:
  assumes "node_fn nd (store r) (svc (calls r)) = Inl e"
  shows "exec svc (nd # ns) r = (Some (nd, e), r)"
  using assms by (simp add: exec.simps)

lemma exec_Editor:
  assumes "node_fn Editor (store r) (svc (calls r)) = Inr u"
  shows "exec svc [Editor] r = exec svc [Tweet_writer, Linkedin_writer] (record_node Editor u r)"
  using assms by (simp add: exec.simps(2)[of _ Editor] next_nodes_Editor)











section \<open>The editor\<close>

lemma no_way_back_to_editor: "Editor \<notin> set (next_nodes s A)"
  by (simp add: mem_next_nodes)

lemma after_editor_step:
  assumes a: "after_editor e1 r" and n: "n \<noteq> Editor"
    and ret: "node_fn n (store r) llm = Inr u"
  shows "after_editor e1 (record_node n u r)"
proof -
  from node_fn_Inr[OF ret] n have "edit_text (apply_update (store r) u) = edit_text (store r)"
    by (cases n) auto
  with a n show ?thesis
    unfolding after_editor_def by (auto simp: record_node_sel)
qed

lemma superstep_after_editor:
  assumes "Editor \<notin> set A" and "after_editor e1 r" and "superstep svc A r = (f, r')"
  shows "after_editor e1 r' \<and> (\<forall>nd e. f = Some (nd, e) \<longrightarrow> nd \<noteq> Editor)"
  using assms
proof (induction A arbitrary: r)
  case Nil
  then show ?case by simp
next
  case (Cons n ns)
  from Cons.prems(1) have n: "n \<noteq> Editor" and ns: "Editor \<notin> set ns" by auto
  show ?case
  proof (cases "node_fn n (store r) (svc (calls r))")
    case (Inl e)
    with Cons.prems n show ?thesis by auto
  next
    case (Inr u)
    with Cons.prems(3) have sup: "superstep svc ns (record_node n u r) = (f, r')" by simp
    from Cons.IH[OF ns after_editor_step[OF Cons.prems(2) n Inr] sup] show ?thesis .
  qed
qed

lemma exec_after_editor:
  assumes "Editor \<notin> set A" and "after_editor e1 r" and "exec svc A r = (f, r')"
  shows "after_editor e1 r' \<and> (\<forall>nd e. f = Some (nd, e) \<longrightarrow> nd \<noteq> Editor)"
  using assms
proof (induction svc A r rule: exec.induct)
  case (1 svc r)
  then show ?case by (simp add: exec.simps)
next
  case (2 svc n ns r)
  obtain f1 r1 where sup: "superstep svc (n # ns) r = (f1, r1)"
    by (cases "superstep svc (n # ns) r")
  note S = superstep_after_editor[OF "2.prems"(1,2) sup]
  show ?case
  proof (cases f1)
    case (Some a)
    with sup "2.prems"(3) have "f = f1" "r' = r1" by (simp_all add: exec.simps)
    with S show ?thesis by simp
  next
    case None
    with sup "2.prems"(3) have ex: "exec svc (next_nodes (store r1) (n # ns)) r1 = (f, r')"
      by (simp add: exec.simps)
    from S have a1: "after_editor e1 r1" by blast
    from "2.IH"[OF sup[symmetric] None no_way_back_to_editor a1 ex] show ?thesis .
  qed
qed

text \<open>
  Claim C3. In every run, from any input state and whatever the service does, the editor
  is the first stage that is started and it is started only once: no edge and no outcome
  of the gate leads to it. If it returns, \<^verbatim>\<open>edit_text\<close> is the answer of the service to
  the editor's prompt in every state of the run from then on, and no other stage writes
  it; if it raises, the run ends there.
\<close>

theorem editor_runs_once_first:
  "executed (invoke svc inp) \<noteq> [] \<and>
   hd (executed (invoke svc inp)) = Editor \<and>
   Editor \<notin> set (tl (executed (invoke svc inp))) \<and>
   entry_point = Editor \<and>
   (\<forall>s nd. Editor \<notin> set (targets s nd)) \<and>
   (\<forall>x \<in> set (trace (snd (invoke svc inp))).
      edit_text (snd x) = edit_text (store (snd (invoke svc inp)))) \<and>
   (trace (snd (invoke svc inp)) \<noteq> [] \<longrightarrow>
      (\<exists>c. svc 0 EDITOR_PROMPT
              (py_strip (''\<newline>text:\<newline>```\<newline>'' @ user_text inp @ ''\<newline>```\<newline>'')) =
              Response c \<and>
           edit_text (store (snd (invoke svc inp))) = Some c)) \<and>
   (nd \<noteq> Editor \<and> node_fn nd s llm = Inr u \<longrightarrow>
      edit_text (apply_update s u) = edit_text s)"
proof -
  let ?r0 = "\<lparr>store = inp, calls = 0, trace = []\<rparr>"
  let ?p = "py_strip (''\<newline>text:\<newline>```\<newline>'' @ user_text inp @ ''\<newline>```\<newline>'')"
  have inv: "invoke svc inp = exec svc [Editor] ?r0"
    by (simp add: invoke_def entry_point_def)
  have run: "executed (invoke svc inp) \<noteq> [] \<and>
     hd (executed (invoke svc inp)) = Editor \<and>
     Editor \<notin> set (tl (executed (invoke svc inp))) \<and>
     (\<forall>x \<in> set (trace (snd (invoke svc inp))).
        edit_text (snd x) = edit_text (store (snd (invoke svc inp)))) \<and>
     (trace (snd (invoke svc inp)) \<noteq> [] \<longrightarrow>
        (\<exists>c. svc 0 EDITOR_PROMPT ?p = Response c \<and>
             edit_text (store (snd (invoke svc inp))) = Some c))"
  proof (cases "svc 0 EDITOR_PROMPT ?p")
    case (Failure m)
    then have "node_fn Editor (store ?r0) (svc (calls ?r0)) = Inl (GenerationFailure m)"
      by (simp add: editor_node_def)
    from exec_abort_at_once[where svc = svc and r = ?r0, OF this] inv
    have "invoke svc inp = (Some (Editor, GenerationFailure m), ?r0)" by simp
    then show ?thesis
      by (simp add: executed_def nodes_def)
  next
    case (Response c)
    then have e: "node_fn Editor (store ?r0) (svc (calls ?r0)) = Inr (Edit_text c)"
      by (simp add: editor_node_def)
    let ?r1 = "record_node Editor (Edit_text c) ?r0"
    have a1: "after_editor (Some c) ?r1"
      by (simp add: after_editor_def record_node_sel)
    obtain f r' where ex: "exec svc [Tweet_writer, Linkedin_writer] ?r1 = (f, r')"
      by (cases "exec svc [Tweet_writer, Linkedin_writer] ?r1")
    from exec_Editor[where svc = svc and r = ?r0, OF e] inv ex
    have res: "invoke svc inp = (f, r')" by simp
    from exec_after_editor[OF _ a1 ex]
    have a: "after_editor (Some c) r'" and nd: "\<forall>nd e. f = Some (nd, e) \<longrightarrow> nd \<noteq> Editor"
      by simp_all
    from a obtain s1 rest where tr: "trace r' = (Editor, s1) # rest"
      and rest: "Editor \<notin> fst ` set rest"
      and all: "\<forall>x \<in> set (trace r'). edit_text (snd x) = Some c"
      and cur: "edit_text (store r') = Some c"
      unfolding after_editor_def by blast
    have ex_eq: "executed (f, r') =
        Editor # (map fst rest @ (case f of None \<Rightarrow> [] | Some (n, e) \<Rightarrow> [n]))"
      by (simp add: executed_def nodes_def tr)
    have "Editor \<notin> set (case f of None \<Rightarrow> [] | Some (n, e) \<Rightarrow> [n])"
      using nd by (cases f) auto
    with rest have "Editor \<notin> set (map fst rest @ (case f of None \<Rightarrow> [] | Some (n, e) \<Rightarrow> [n]))"
      by auto
    with ex_eq all cur Response show ?thesis
      unfolding res by (simp add: tr)
  qed
  have edges: "\<forall>s nd. Editor \<notin> set (targets s nd)"
    by (auto simp: targets_def edges_def should_rewrite_def Let_def split: route.splits)
  have other: "nd \<noteq> Editor \<and> node_fn nd s llm = Inr u \<longrightarrow>
      edit_text (apply_update s u) = edit_text s"
  proof
    assume a: "nd \<noteq> Editor \<and> node_fn nd s llm = Inr u"
    then have "node_fn nd s llm = Inr u" by blast
    from node_fn_Inr[OF this] a show "edit_text (apply_update s u) = edit_text s"
      by (cases nd) auto
  qed
  have entry: "entry_point = Editor" by (simp add: entry_point_def)
  from run entry edges other show ?thesis
    by (intro conjI) blast+
qed

theorem editor_runs_once_first_witness:
  "executed (invoke (always ''t'') mid_state) \<noteq> [] \<and>
   hd (executed (invoke (always ''t'') mid_state)) = Editor \<and>
   Editor \<notin> set (tl (executed (invoke (always ''t'') mid_state))) \<and>
   edit_text (apply_update mid_state (Tweet \<lparr>drafts = [''d''], feedback = Some ''x''\<rparr>)) =
     edit_text mid_state"
proof -
  have ok: "Tweet_critique \<noteq> Editor \<and>
      node_fn Tweet_critique mid_state (always ''x'' 0) =
        Inr (Tweet \<lparr>drafts = [''d''], feedback = Some ''x''\<rparr>)"
    by (simp add: critique_tweet_node_def critique_tweet_prompt_def py_last_def Let_def
          mid_state_def always_def)
  from editor_runs_once_first[of "always ''t''" mid_state Tweet_critique mid_state
      "always ''x'' 0" "Tweet \<lparr>drafts = [''d''], feedback = Some ''x''\<rparr>"] ok
  show ?thesis by blast
qed

end
